theory Spec2Isabelle
  imports
    Main
    "HOL-Library.FSet"
    "HOL-Library.Finite_Map"
    "HOL-Library.List_Lexorder"
    "HOL-Library.Sublist"
begin

section \<open>The image scraper \<^verbatim>\<open>gallery/scrape.py\<close>\<close>

text \<open>
  A shallow embedding of \<^verbatim>\<open>src/gallery/scrape.py\<close>. A Python \<^verbatim>\<open>str\<close> is the list of its
  code points, natural numbers below \<^verbatim>\<open>0x110000\<close>; a lone surrogate (\<^verbatim>\<open>0xD800\<close> to
  \<^verbatim>\<open>0xDFFF\<close>) may be among them, as in a command-line argument or a file name that is not
  valid UTF-8. The order of lists of numbers is the order in which \<^verbatim>\<open>sorted\<close> puts
  strings. A \<^verbatim>\<open>bytes\<close> value is a list of 8-bit characters. A Python \<^verbatim>\<open>set\<close> is a finite
  set, a directory is a finite map from relative paths to entries.
\<close>

type_synonym str = "nat list"

type_synonym bytes = "char list"

text \<open>A string literal of the script, all of whose characters are ASCII.\<close>

definition lit :: "string \<Rightarrow> str" where
  "lit cs = map of_char cs"

subsection \<open>Module constants\<close>

definition IMG_EXTS :: "str set" where
  "IMG_EXTS =
     {lit ''.jpg'', lit ''.jpeg'', lit ''.png'', lit ''.gif'', lit ''.webp'', lit ''.avif''}"

definition SCROLL_TIMES :: nat where
  "SCROLL_TIMES = 15"

definition MIN_SIZE :: nat where
  "MIN_SIZE = 5000"

subsection \<open>The string methods the script calls\<close>

text \<open>\<^verbatim>\<open>s.startswith(p)\<close> is \<^term>\<open>prefix p s\<close>; \<^verbatim>\<open>sub in s\<close> is \<^term>\<open>sublist sub s\<close>.\<close>

definition startswith :: "str \<Rightarrow> str \<Rightarrow> bool" where
  "startswith s p = prefix p s"

definition py_in :: "str \<Rightarrow> str \<Rightarrow> bool" where
  "py_in sub s = sublist sub s"

text \<open>\<^verbatim>\<open>s.split(sep)\<close> for a separator of one character: never an empty list.\<close>

fun split :: "nat \<Rightarrow> str \<Rightarrow> str list" where
  "split sep [] = [[]]"
| "split sep (c # cs) =
     (if c = sep then [] # split sep cs
      else (case split sep cs of
              [] \<Rightarrow> [[c]]
            | p # ps \<Rightarrow> (c # p) # ps))"

text \<open>
  \<^verbatim>\<open>str.isspace\<close> of one character, which \<^verbatim>\<open>s.strip()\<close> uses: tab to carriage return,
  the separators \<^verbatim>\<open>0x1c..0x1f\<close>, the space, and beyond ASCII \<^verbatim>\<open>U+0085\<close>, \<^verbatim>\<open>U+00A0\<close>,
  \<^verbatim>\<open>U+1680\<close>, \<^verbatim>\<open>U+2000..U+200A\<close>, \<^verbatim>\<open>U+2028\<close>, \<^verbatim>\<open>U+2029\<close>, \<^verbatim>\<open>U+202F\<close>, \<^verbatim>\<open>U+205F\<close> and
  \<^verbatim>\<open>U+3000\<close>.
\<close>

definition py_isspace :: "nat \<Rightarrow> bool" where
  "py_isspace c =
     ((0x09 \<le> c \<and> c \<le> 0x0D) \<or> (0x1C \<le> c \<and> c \<le> 0x20) \<or> c = 0x85 \<or> c = 0xA0 \<or>
      c = 0x1680 \<or> (0x2000 \<le> c \<and> c \<le> 0x200A) \<or> c = 0x2028 \<or> c = 0x2029 \<or>
      c = 0x202F \<or> c = 0x205F \<or> c = 0x3000)"

definition strip :: "str \<Rightarrow> str" where
  "strip s = rev (dropWhile py_isspace (rev (dropWhile py_isspace s)))"

text \<open>
  \<^verbatim>\<open>s.replace(old, new)\<close>: every occurrence of \<^verbatim>\<open>old\<close>, found from the left and not
  overlapping; with an empty \<^verbatim>\<open>old\<close> Python puts \<^verbatim>\<open>new\<close> around every character.
\<close>

function replace :: "str \<Rightarrow> str \<Rightarrow> str \<Rightarrow> str" where
  "replace old new [] = (if old = [] then new else [])"
| "replace old new (c # cs) =
     (if old = [] then new @ c # replace old new cs
      else if prefix old (c # cs) then new @ replace old new (drop (length old) (c # cs))
      else c # replace old new cs)"
  by pat_completeness auto
termination
  by (relation "measure (\<lambda>(old, new, s). length s)") (auto simp: neq_Nil_conv)

text \<open>\<^verbatim>\<open>s.rstrip(chars)\<close>.\<close>

definition rstrip :: "str \<Rightarrow> str \<Rightarrow> str" where
  "rstrip chars s = rev (dropWhile (\<lambda>c. c \<in> set chars) (rev s))"

text \<open>\<^verbatim>\<open>sep.join(xs)\<close>.\<close>

fun join :: "str \<Rightarrow> str list \<Rightarrow> str" where
  "join sep [] = []"
| "join sep [x] = x"
| "join sep (x # y # ys) = x @ sep @ join sep (y # ys)"

text \<open>
  \<^verbatim>\<open>s.lower()\<close>, as far as ASCII goes: the letters \<^verbatim>\<open>A\<close> to \<^verbatim>\<open>Z\<close>, and the Kelvin sign
  \<^verbatim>\<open>U+212A\<close>, the one character beyond ASCII that \<^verbatim>\<open>str.lower\<close> turns into ASCII text. Every
  other character that \<^verbatim>\<open>str.lower\<close> changes becomes text with a character beyond ASCII
  and is left as it is here: the result is in \<^verbatim>\<open>IMG_EXTS\<close>, whose strings are ASCII, in the
  same cases.
\<close>

definition lower_char :: "nat \<Rightarrow> nat" where
  "lower_char c = (if 0x41 \<le> c \<and> c \<le> 0x5A then c + 32 else if c = 0x212A then 0x6B else c)"

definition lower :: "str \<Rightarrow> str" where
  "lower s = map lower_char s"

text \<open>Decimal digits of a number, and the format \<^verbatim>\<open>{saved:04d}\<close>.\<close>

definition digit_char :: "nat \<Rightarrow> nat" where
  "digit_char d = 0x30 + d mod 10"

fun dec :: "nat \<Rightarrow> str" where
  "dec n = (if n < 10 then [digit_char n] else dec (n div 10) @ [digit_char (n mod 10)])"

declare dec.simps [simp del]

definition fmt_04d :: "nat \<Rightarrow> str" where
  "fmt_04d n = replicate (4 - length (dec n)) 0x30 @ dec n"

subsection \<open>Exceptions\<close>

text \<open>
  An exception that a call of a library raises, an instance of \<^verbatim>\<open>Exception\<close> (the
  \<^verbatim>\<open>except Exception\<close> clauses catch it); the string is \<^verbatim>\<open>str(e)\<close>.
\<close>

datatype exn = Exception str

fun str_exn :: "exn \<Rightarrow> str" where
  "str_exn (Exception msg) = msg"

text \<open>
  What leaves \<^verbatim>\<open>main\<close>: the \<^verbatim>\<open>UnicodeEncodeError\<close> of the \<^verbatim>\<open>utf-8\<close> codec on a lone
  surrogate, with the position of that character, or an exception of the browser or of
  the system.
\<close>

datatype error = UnicodeEncodeError nat | Raised exn

text \<open>
  \<^verbatim>\<open>s.encode("utf-8")\<close>: the bytes of the characters in turn; a lone surrogate raises.
\<close>

definition is_surrogate :: "nat \<Rightarrow> bool" where
  "is_surrogate c = (0xD800 \<le> c \<and> c \<le> 0xDFFF)"

definition utf8 :: "nat \<Rightarrow> bytes" where
  "utf8 c =
     (if c < 0x80 then [char_of c]
      else if c < 0x800 then [char_of (0xC0 + c div 64), char_of (0x80 + c mod 64)]
      else if c < 0x10000 then
        [char_of (0xE0 + c div 4096), char_of (0x80 + c div 64 mod 64),
         char_of (0x80 + c mod 64)]
      else
        [char_of (0xF0 + c div 262144), char_of (0x80 + c div 4096 mod 64),
         char_of (0x80 + c div 64 mod 64), char_of (0x80 + c mod 64)])"

fun encode_from :: "nat \<Rightarrow> str \<Rightarrow> error + bytes" where
  "encode_from i [] = Inr []"
| "encode_from i (c # cs) =
     (if is_surrogate c then Inl (UnicodeEncodeError i)
      else (case encode_from (i + 1) cs of
              Inl e \<Rightarrow> Inl e
            | Inr bs \<Rightarrow> Inr (utf8 c @ bs)))"

definition encode_utf8 :: "str \<Rightarrow> error + bytes" where
  "encode_utf8 s = encode_from 0 s"

subsection \<open>The world outside: HTTP and the disk\<close>

text \<open>
  An \<^verbatim>\<open>httpx\<close> response: the body and the headers (keys in lower case, as
  \<^verbatim>\<open>httpx.Headers\<close> looks them up).
\<close>

record response =
  content :: bytes
  headers :: "str \<rightharpoonup> str"

text \<open>
  What \<^verbatim>\<open>IMAGES_DIR.rglob("*")\<close> yields: every file of any kind below the images
  directory, a plain file or a directory, at its path relative to \<^verbatim>\<open>IMAGES_DIR\<close>.
  \<^verbatim>\<open>index_html\<close> is the text of \<^verbatim>\<open>HERE / "index.html"\<close>, if that file exists.
\<close>

datatype entry = File bytes | Dir

type_synonym path = "str list"

record fs =
  images :: "(path, entry) fmap"
  index_html :: "str option"

text \<open>
  How the system makes a write fail. \<^verbatim>\<open>write_bytes\<close> and \<^verbatim>\<open>write_text\<close> open the file
  for writing, which creates or truncates it, and then write: either the opening raises
  and the disk is as before, or the writing raises and the file is left with what
  reached it (nothing, or a part of the data).
\<close>

datatype 'a fault = OpenFails exn | WriteFails exn 'a

text \<open>
  The outcome of \<^verbatim>\<open>client.get(url)\<close>, and the failure, if any, of the call of
  \<^verbatim>\<open>dest.write_bytes\<close> made while the given URL is handled (a full disk, a missing
  permission).
\<close>

record world =
  http_get :: "str \<Rightarrow> exn + response"
  disk_fault :: "str \<Rightarrow> bytes fault option"

text \<open>
  \<^verbatim>\<open>dest.write_bytes(data)\<close> for \<^verbatim>\<open>dest = IMAGES_DIR / name\<close>. The opening raises when
  the system refuses it and when \<^verbatim>\<open>dest\<close> is a directory (an \<^verbatim>\<open>IsADirectoryError\<close>, whose
  message is given here without the path). The result is the disk afterwards, what the
  call left in the file if it opened it, and the exception if it raised.
\<close>

definition write_bytes ::
  "world \<Rightarrow> str \<Rightarrow> fs \<Rightarrow> str \<Rightarrow> bytes \<Rightarrow> fs \<times> bytes option \<times> exn option" where
  "write_bytes w url d nm data =
     (case disk_fault w url of
        Some (OpenFails e) \<Rightarrow> (d, None, Some e)
      | Some (WriteFails e left) \<Rightarrow>
          (if fmlookup (images d) [nm] = Some Dir
           then (d, None, Some (Exception (lit ''[Errno 21] Is a directory'')))
           else (d\<lparr>images := fmupd [nm] (File left) (images d)\<rparr>, Some left, Some e))
      | None \<Rightarrow>
          (if fmlookup (images d) [nm] = Some Dir
           then (d, None, Some (Exception (lit ''[Errno 21] Is a directory'')))
           else (d\<lparr>images := fmupd [nm] (File data) (images d)\<rparr>, Some data, None)))"

subsection \<open>\<^verbatim>\<open>download\<close>\<close>

text \<open>
  The state of the loop of \<^verbatim>\<open>download\<close>: the counter \<^verbatim>\<open>saved\<close>, the disk, the lines
  printed so far, and three histories, in the order of the calls: the URLs passed to
  \<^verbatim>\<open>client.get\<close>; the calls of \<^verbatim>\<open>write_bytes\<close> that returned (the URL handled, the
  name of \<^verbatim>\<open>dest\<close>, the bytes written); and the calls of \<^verbatim>\<open>write_bytes\<close> that opened
  their file, whether they returned or raised (the URL, the name, the bytes left in
  the file).
\<close>

record dl_state =
  saved :: nat
  disk :: fs
  out :: "str list"
  gets :: "str list"
  writes :: "(str \<times> str \<times> bytes) list"
  touched :: "(str \<times> str \<times> bytes) list"

text \<open>Line 91: \<^verbatim>\<open>r.headers.get("content-type", "image/jpeg")\<close>.\<close>

definition content_type :: "response \<Rightarrow> str" where
  "content_type r =
     (case headers r (lit ''content-type'') of None \<Rightarrow> lit ''image/jpeg'' | Some ct \<Rightarrow> ct)"

text \<open>Lines 94 to 96: the extension of the file, from the content type.\<close>

definition EXT_ALLOW :: "str set" where
  "EXT_ALLOW = {lit ''jpg'', lit ''png'', lit ''gif'', lit ''webp'', lit ''avif''}"

definition ct_subtype :: "str \<Rightarrow> str" where
  "ct_subtype ct =
     replace (lit ''jpeg'') (lit ''jpg'')
       (strip (hd (split (of_char CHR '';'') (last (split (of_char CHR ''/'') ct)))))"

definition dest_ext :: "str \<Rightarrow> str" where
  "dest_ext ct = (let ext = ct_subtype ct in if ext \<notin> EXT_ALLOW then lit ''jpg'' else ext)"

text \<open>Line 97: \<^verbatim>\<open>f"img_{saved:04d}.{ext}"\<close>.\<close>

definition dest_name :: "nat \<Rightarrow> str \<Rightarrow> str" where
  "dest_name k ext = lit ''img_'' @ fmt_04d k @ lit ''.'' @ ext"

text \<open>The two lines that \<^verbatim>\<open>download\<close> prints; \<^verbatim>\<open>url[:70]\<close> is the first 70 characters.\<close>

definition saved_line :: "nat \<Rightarrow> str \<Rightarrow> nat \<Rightarrow> str" where
  "saved_line n nm len =
     lit ''  ['' @ dec n @ lit ''] saved '' @ nm @ lit '' ('' @ dec (len div 1024) @ lit ''KB)''"

definition skip_line :: "str \<Rightarrow> exn \<Rightarrow> str" where
  "skip_line url e = lit ''  [skip] '' @ take 70 url @ lit '': '' @ str_exn e"

text \<open>One iteration of the loop, lines 87 to 102.\<close>

definition download_step :: "world \<Rightarrow> str \<Rightarrow> dl_state \<Rightarrow> dl_state" where
  "download_step w url st0 =
     (let st = st0\<lparr>gets := gets st0 @ [url]\<rparr> in
      case http_get w url of
        Inl e \<Rightarrow> st\<lparr>out := out st @ [skip_line url e]\<rparr>
      | Inr r \<Rightarrow>
          if length (content r) < MIN_SIZE then st
          else
            let ct = content_type r in
            if \<not> py_in (lit ''image'') ct then st
            else
              let dest = dest_name (saved st) (dest_ext ct) in
              (case write_bytes w url (disk st) dest (content r) of
                 (d, left, raised) \<Rightarrow>
                   let st' = st\<lparr>disk := d,
                                touched := touched st @
                                  (case left of None \<Rightarrow> [] | Some b \<Rightarrow> [(url, dest, b)])\<rparr>
                   in (case raised of
                         Some e \<Rightarrow> st'\<lparr>out := out st @ [skip_line url e]\<rparr>
                       | None \<Rightarrow>
                           st'\<lparr>saved := saved st + 1,
                               out := out st @
                                 [saved_line (saved st + 1) dest (length (content r))],
                               writes := writes st @ [(url, dest, content r)]\<rparr>)))"

text \<open>The loop over \<^verbatim>\<open>sorted(urls)\<close>, from \<^verbatim>\<open>saved = 0\<close>.\<close>

definition download_loop :: "world \<Rightarrow> str list \<Rightarrow> dl_state \<Rightarrow> dl_state" where
  "download_loop w us st = fold (download_step w) us st"

definition download_init :: "fs \<Rightarrow> dl_state" where
  "download_init d = \<lparr>saved = 0, disk = d, out = [], gets = [], writes = [], touched = []\<rparr>"

definition download :: "world \<Rightarrow> str fset \<Rightarrow> fs \<Rightarrow> dl_state" where
  "download w us d = download_loop w (sorted_list_of_fset us) (download_init d)"

subsection \<open>\<^verbatim>\<open>build_html\<close>\<close>

text \<open>
  \<^verbatim>\<open>p.name\<close> and \<^verbatim>\<open>p.suffix\<close> of \<^verbatim>\<open>pathlib\<close>: the suffix starts at the last dot of
  the name, unless that dot is the first or the last character of the name.
\<close>

definition path_name :: "path \<Rightarrow> str" where
  "path_name p = (if p = [] then [] else last p)"

definition rfind :: "str \<Rightarrow> nat \<Rightarrow> nat option" where
  "rfind s c =
     (if c \<in> set s then Some (length s - 1 - length (takeWhile (\<lambda>x. x \<noteq> c) (rev s)))
      else None)"

definition path_suffix :: "path \<Rightarrow> str" where
  "path_suffix p =
     (let nm = path_name p in
      case rfind nm (of_char CHR ''.'') of
        None \<Rightarrow> []
      | Some i \<Rightarrow> if 0 < i \<and> i + 1 < length nm then drop i nm else [])"

text \<open>Lines 138 to 140: the sorted paths below the images directory with an image suffix.\<close>

definition is_image :: "path \<Rightarrow> bool" where
  "is_image p = (lower (path_suffix p) \<in> IMG_EXTS)"

definition image_paths :: "fs \<Rightarrow> path list" where
  "image_paths d = sorted_list_of_fset (ffilter is_image (fmdom (images d)))"

definition img_tag :: "path \<Rightarrow> str" where
  \<open>img_tag p = lit ''    <img src="images/'' @ path_name p @ lit ''" loading="lazy">''\<close>

definition unlines :: "string list \<Rightarrow> str" where
  "unlines ls = concat (map (\<lambda>l. lit l @ lit ''\<newline>'') ls)"

text \<open>Lines 150 to 178: the page around the tags.\<close>

definition html_head :: "string list" where
  \<open>html_head =
    [''<!DOCTYPE html>'',
     ''<html lang="ar" dir="rtl">'',
     ''<head>'',
     ''  <meta charset="UTF-8">'',
     ''  <meta name="viewport" content="width=device-width, initial-scale=1.0">'',
     ''  <title>Gallery</title>'',
     ''  <style>'',
     ''    body { margin: 0; background: #111; }'',
     ''    .grid {'',
     ''      display: grid;'',
     ''      grid-template-columns: repeat(auto-fill, minmax(240px, 1fr));'',
     ''      gap: 4px;'',
     ''      padding: 4px;'',
     ''    }'',
     ''    img {'',
     ''      width: 100%;'',
     ''      aspect-ratio: 1;'',
     ''      object-fit: cover;'',
     ''      display: block;'',
     ''    }'',
     ''  </style>'',
     ''</head>'',
     ''<body>'',
     ''  <div class="grid">'']\<close>

definition html_foot :: "string list" where
  \<open>html_foot = [''  </div>'', ''</body>'', ''</html>'']\<close>

definition html_page :: "str \<Rightarrow> str" where
  "html_page img_tags = unlines html_head @ img_tags @ lit ''\<newline>'' @ unlines html_foot"

text \<open>
  \<^verbatim>\<open>out.write_text(html, encoding="utf-8")\<close>, given the failure, if any, that the system
  makes of it: the file is opened, which creates or truncates it; then the text is
  encoded, which raises on a lone surrogate and leaves the file empty; then it is
  written. The result is the disk afterwards and the exception, if one is raised.
\<close>

definition write_text :: "str fault option \<Rightarrow> fs \<Rightarrow> str \<Rightarrow> fs \<times> error option" where
  "write_text hf d html =
     (case hf of
        Some (OpenFails e) \<Rightarrow> (d, Some (Raised e))
      | _ \<Rightarrow>
          (case encode_utf8 html of
             Inl err \<Rightarrow> (d\<lparr>index_html := Some []\<rparr>, Some err)
           | Inr bs \<Rightarrow>
               (case hf of
                  Some (WriteFails e left) \<Rightarrow> (d\<lparr>index_html := Some left\<rparr>, Some (Raised e))
                | _ \<Rightarrow> (d\<lparr>index_html := Some html\<rparr>, None))))"

text \<open>
  \<^verbatim>\<open>build_html\<close> on the disk and the lines printed so far: the disk and the lines
  afterwards, and the exception if it raises.
\<close>

definition build_html ::
  "str fault option \<Rightarrow> fs \<Rightarrow> str list \<Rightarrow> fs \<times> str list \<times> error option" where
  "build_html hf d lines =
     (let imgs = image_paths d in
      if imgs = [] then (d, lines @ [lit ''No images to build gallery from.''], None)
      else
        let img_tags = join (lit ''\<newline>'') (map img_tag imgs);
            html = html_page img_tags
        in (case write_text hf d html of
              (d', Some err) \<Rightarrow> (d', lines, Some err)
            | (d', None) \<Rightarrow>
                (d', lines @ [lit ''Built index.html with '' @ dec (length imgs) @ lit '' images''],
                 None)))"

subsection \<open>\<^verbatim>\<open>make_url\<close>\<close>

text \<open>
  \<^verbatim>\<open>urllib.parse.quote(s)\<close> with its default \<^verbatim>\<open>safe="/"\<close>: the string is encoded as
  UTF-8, which raises on a lone surrogate; of the bytes, the letters, the digits and
  \<^verbatim>\<open>_.-~/\<close> stay, every other one becomes \<^verbatim>\<open>%XX\<close> in upper-case hexadecimal.
\<close>

definition quote_safe :: "char set" where
  "quote_safe =
     set ''ABCDEFGHIJKLMNOPQRSTUVWXYZabcdefghijklmnopqrstuvwxyz0123456789_.-~/''"

definition hex_digit :: "nat \<Rightarrow> nat" where
  "hex_digit d = (if d mod 16 < 10 then 0x30 + d mod 16 else 0x37 + d mod 16)"

definition quote_byte :: "char \<Rightarrow> str" where
  "quote_byte b =
     (if b \<in> quote_safe then [of_char b]
      else [of_char CHR ''%'', hex_digit (of_char b div 16), hex_digit (of_char b mod 16)])"

definition quote :: "str \<Rightarrow> error + str" where
  "quote s =
     (case encode_utf8 s of
        Inl err \<Rightarrow> Inl err
      | Inr bs \<Rightarrow> Inr (concat (map quote_byte bs)))"

definition make_url :: "str \<Rightarrow> error + str" where
  "make_url query_or_url =
     (if startswith query_or_url (lit ''http'') then Inr query_or_url
      else (case quote query_or_url of
              Inl err \<Rightarrow> Inl err
            | Inr q \<Rightarrow> Inr (lit ''https://www.google.com/search?q='' @ q @ lit ''&udm=2'')))"

subsection \<open>\<^verbatim>\<open>load_firefox_cookies\<close>\<close>

text \<open>
  A cookie of the jar that \<^verbatim>\<open>browser_cookie3.firefox\<close> returns (an attribute may be
  \<^verbatim>\<open>None\<close>), and the dictionary made of it.
\<close>

record jar_cookie =
  c_name :: str
  c_value :: str
  c_domain :: "str option"
  c_path :: "str option"

record cookie =
  ck_name :: str
  ck_value :: str
  ck_domain :: str
  ck_path :: str

definition or_default :: "str option \<Rightarrow> str \<Rightarrow> str" where
  "or_default v dflt = (case v of None \<Rightarrow> dflt | Some s \<Rightarrow> if s = [] then dflt else s)"

definition cookie_dict :: "jar_cookie \<Rightarrow> cookie" where
  "cookie_dict c =
     \<lparr>ck_name = c_name c, ck_value = c_value c,
      ck_domain = or_default (c_domain c) (lit ''.google.com''),
      ck_path = or_default (c_path c) (lit ''/'')\<rparr>"

text \<open>
  The argument is the outcome of the body of the \<^verbatim>\<open>try\<close>: the import of
  \<^verbatim>\<open>browser_cookie3\<close>, the call of \<^verbatim>\<open>firefox\<close> and the iteration over the jar raise,
  or give the cookies. The result is the returned list and the lines printed.
\<close>

definition load_firefox_cookies :: "exn + jar_cookie list \<Rightarrow> cookie list \<times> str list" where
  "load_firefox_cookies jar =
     (case jar of
        Inr cj \<Rightarrow> (map cookie_dict cj, [])
      | Inl e \<Rightarrow> ([], [lit ''No Firefox cookies: '' @ str_exn e]))"

subsection \<open>\<^verbatim>\<open>collect_image_urls\<close>\<close>

text \<open>
  The browser automation engine: a browser context of type \<^typ>\<open>'c\<close>, a page of type
  \<^typ>\<open>'p\<close>, and the calls the script awaits as transitions on them, each of which may
  raise. \<^verbatim>\<open>new_context\<close> stands for the launch of the browser and \<^verbatim>\<open>new_context\<close>;
  \<^verbatim>\<open>open_page\<close> for \<^verbatim>\<open>new_page\<close>, \<^verbatim>\<open>goto\<close> and the wait after it; \<^verbatim>\<open>show_more\<close> tells
  whether \<^verbatim>\<open>query_selector\<close> finds the button; \<^verbatim>\<open>close_browser\<close> is \<^verbatim>\<open>browser.close()\<close>.
\<close>

record ('c, 'p) browser =
  new_context :: "exn + 'c"
  add_cookies :: "cookie list \<Rightarrow> 'c \<Rightarrow> exn + 'c"
  open_page :: "'c \<Rightarrow> str \<Rightarrow> exn + 'p"
  press_end :: "'p \<Rightarrow> exn + 'p"
  wait_for_timeout :: "nat \<Rightarrow> 'p \<Rightarrow> exn + 'p"
  page_content :: "'p \<Rightarrow> exn + str"
  show_more :: "'p \<Rightarrow> exn + bool"
  click :: "'p \<Rightarrow> exn + 'p"
  close_browser :: "'p \<Rightarrow> exn option"

text \<open>
  The module \<^verbatim>\<open>re\<close>, for the three patterns of the script. \<^verbatim>\<open>ou_matches\<close> gives the
  first groups of the matches that \<^verbatim>\<open>finditer\<close> finds in a text for the pattern of
  line 62, \<^verbatim>\<open>"ou"\s*:\s*"(https?://[^"]+)"\<close>; \<^verbatim>\<open>img_matches\<close> gives the matches for the
  pattern of line 66, \<^verbatim>\<open>https?://[^\s"'<>]+\.(?:jpg|jpeg|png|webp|gif)\<close> without regard to
  case; \<^verbatim>\<open>host_match\<close> gives the first group of what \<^verbatim>\<open>search\<close> finds in a URL for the
  pattern of line 68, \<^verbatim>\<open>https?://([^/]+)\<close>, if it finds anything.
\<close>

record regex =
  ou_matches :: "str \<Rightarrow> str list"
  img_matches :: "str \<Rightarrow> str list"
  host_match :: "str \<Rightarrow> str option"

datatype action = PressEnd | Wait nat | Content | QuerySelector | Click

text \<open>
  The state of the loop: the set \<^verbatim>\<open>urls\<close>, the page, the lines printed, the history of
  the calls made on the page, and the exception that ended the loop, if one did.
\<close>

record 'p collect_state =
  urls :: "str fset"
  page :: 'p
  printed :: "str list"
  actions :: "action list"
  stopped :: "exn option"

definition skip_domains :: "str list" where
  "skip_domains =
     [lit ''google.com'', lit ''gstatic.com'', lit ''googleapis.com'',
      lit ''googleusercontent.com'']"

text \<open>Lines 62 and 63, and lines 66 to 70: the two scans of the content.\<close>

definition scan_ou :: "regex \<Rightarrow> str \<Rightarrow> str fset \<Rightarrow> str fset" where
  "scan_ou re cont us = fold (\<lambda>m acc. finsert m acc) (ou_matches re cont) us"

definition add_img :: "regex \<Rightarrow> str \<Rightarrow> str fset \<Rightarrow> str fset" where
  "add_img re m acc =
     (let url = rstrip [0x5C, of_char CHR '','', of_char CHR '';'', of_char CHR '')''] m in
      case host_match re url of
        None \<Rightarrow> acc
      | Some host \<Rightarrow>
          if \<not> list_ex (\<lambda>d. py_in d host) skip_domains then finsert url acc else acc)"

definition scan_img :: "regex \<Rightarrow> str \<Rightarrow> str fset \<Rightarrow> str fset" where
  "scan_img re cont us = fold (add_img re) (img_matches re cont) us"

definition scroll_line :: "nat \<Rightarrow> nat \<Rightarrow> str" where
  "scroll_line i n =
     lit ''  scroll '' @ dec (i + 1) @ lit ''/'' @ dec SCROLL_TIMES @ lit '': '' @ dec n @
     lit '' urls found so far''"

text \<open>The loop is left with the exception \<open>e\<close>, after the calls \<open>acts\<close> of this iteration.\<close>

definition halt ::
  "'p collect_state \<Rightarrow> str fset \<Rightarrow> 'p \<Rightarrow> action list \<Rightarrow> exn \<Rightarrow> 'p collect_state" where
  "halt st us p acts e =
     st\<lparr>urls := us, page := p, actions := actions st @ acts, stopped := Some e\<rparr>"

text \<open>
  One iteration, lines 55 to 78. There is no handler in the loop: an exception of a call
  on the page ends it, and no later iteration runs.
\<close>

definition collect_step ::
  "('c, 'p) browser \<Rightarrow> regex \<Rightarrow> nat \<Rightarrow> 'p collect_state \<Rightarrow> 'p collect_state" where
  "collect_step br re i st =
     (case stopped st of
        Some e \<Rightarrow> st
      | None \<Rightarrow>
     (case press_end br (page st) of
        Inl e \<Rightarrow> halt st (urls st) (page st) [PressEnd] e
      | Inr p1 \<Rightarrow>
     (case wait_for_timeout br 2000 p1 of
        Inl e \<Rightarrow> halt st (urls st) p1 [PressEnd, Wait 2000] e
      | Inr p2 \<Rightarrow>
     (case page_content br p2 of
        Inl e \<Rightarrow> halt st (urls st) p2 [PressEnd, Wait 2000, Content] e
      | Inr cont \<Rightarrow>
     (let us = scan_img re cont (scan_ou re cont (urls st)) in
      case show_more br p2 of
        Inl e \<Rightarrow> halt st us p2 [PressEnd, Wait 2000, Content, QuerySelector] e
      | Inr btn \<Rightarrow>
          if btn then
            (case click br p2 of
               Inl e \<Rightarrow> halt st us p2 [PressEnd, Wait 2000, Content, QuerySelector, Click] e
             | Inr p3 \<Rightarrow>
            (case wait_for_timeout br 1500 p3 of
               Inl e \<Rightarrow>
                 halt st us p3
                   [PressEnd, Wait 2000, Content, QuerySelector, Click, Wait 1500] e
             | Inr p4 \<Rightarrow>
                 \<lparr>urls = us, page = p4,
                  printed = printed st @ [scroll_line i (fcard us)],
                  actions = actions st @
                    [PressEnd, Wait 2000, Content, QuerySelector, Click, Wait 1500],
                  stopped = None\<rparr>))
          else
            \<lparr>urls = us, page = p2,
             printed = printed st @ [scroll_line i (fcard us)],
             actions = actions st @ [PressEnd, Wait 2000, Content, QuerySelector],
             stopped = None\<rparr>)))))"

definition collect_init :: "'p \<Rightarrow> 'p collect_state" where
  "collect_init p = \<lparr>urls = {||}, page = p, printed = [], actions = [], stopped = None\<rparr>"

text \<open>
  The loop \<^verbatim>\<open>for i in range(n)\<close>; \<^verbatim>\<open>collect_image_urls\<close> runs it for \<^verbatim>\<open>SCROLL_TIMES\<close>, and
  raises what stopped the loop, or returns \<^verbatim>\<open>urls\<close>.
\<close>

definition collect_loop ::
  "('c, 'p) browser \<Rightarrow> regex \<Rightarrow> nat \<Rightarrow> 'p \<Rightarrow> 'p collect_state" where
  "collect_loop br re n p = fold (collect_step br re) [0..<n] (collect_init p)"

definition collect_image_urls :: "('c, 'p) browser \<Rightarrow> regex \<Rightarrow> 'p \<Rightarrow> 'p collect_state" where
  "collect_image_urls br re p = collect_loop br re SCROLL_TIMES p"

subsection \<open>\<^verbatim>\<open>main\<close>\<close>

text \<open>
  Everything a run depends on, and what it leaves: the disk, the lines printed, and the
  exception with which \<^verbatim>\<open>main\<close> ends when it does not return.
\<close>

record ('c, 'p) env =
  firefox :: "exn + jar_cookie list"
  engine :: "('c, 'p) browser"
  re_module :: regex
  net :: world
  html_fault :: "str fault option"
  disk0 :: fs

record run =
  final_disk :: fs
  stdout :: "str list"
  crashed :: "error option"

text \<open>Lines 110 to 122: the context that the page is opened in.\<close>

definition main_context :: "('c, 'p) env \<Rightarrow> exn + 'c" where
  "main_context env =
     (let cookies = fst (load_firefox_cookies (firefox env)) in
      case new_context (engine env) of
        Inl e \<Rightarrow> Inl e
      | Inr ctx \<Rightarrow> if cookies \<noteq> [] then add_cookies (engine env) cookies ctx else Inr ctx)"

text \<open>
  Lines 107 to 129, up to the closing of the browser: the lines printed, and the
  exception raised or the URLs collected.
\<close>

definition main_session :: "('c, 'p) env \<Rightarrow> str \<Rightarrow> str list \<times> (error + str fset)" where
  "main_session env query_or_url =
     (case make_url query_or_url of
        Inl err \<Rightarrow> ([], Inl err)
      | Inr url \<Rightarrow>
     (let (cookies, cookie_lines) = load_firefox_cookies (firefox env);
          lines = [lit ''Scraping: '' @ url] @ cookie_lines @
                  [lit ''Loaded '' @ dec (length cookies) @ lit '' Firefox cookies'']
      in case main_context env of
           Inl e \<Rightarrow> (lines, Inl (Raised e))
         | Inr ctx \<Rightarrow>
        (case open_page (engine env) ctx url of
           Inl e \<Rightarrow> (lines, Inl (Raised e))
         | Inr p \<Rightarrow>
        (let cs = collect_image_urls (engine env) (re_module env) p in
         case stopped cs of
           Some e \<Rightarrow> (lines @ printed cs, Inl (Raised e))
         | None \<Rightarrow>
        (case close_browser (engine env) (page cs) of
           Some e \<Rightarrow> (lines @ printed cs, Inl (Raised e))
         | None \<Rightarrow> (lines @ printed cs, Inr (urls cs)))))))"

text \<open>Line 132: the download pass, when the run gets there.\<close>

definition main_download :: "('c, 'p) env \<Rightarrow> str \<Rightarrow> dl_state option" where
  "main_download env query_or_url =
     (case snd (main_session env query_or_url) of
        Inl err \<Rightarrow> None
      | Inr us \<Rightarrow> Some (download (net env) us (disk0 env)))"

definition main :: "('c, 'p) env \<Rightarrow> str \<Rightarrow> run" where
  "main env query_or_url =
     (case main_session env query_or_url of
        (lines, Inl err) \<Rightarrow> \<lparr>final_disk = disk0 env, stdout = lines, crashed = Some err\<rparr>
      | (lines, Inr us) \<Rightarrow>
          let ds = download (net env) us (disk0 env) in
          (case build_html (html_fault env) (disk ds)
                  (lines @
                   [lit ''\<newline>Found '' @ dec (fcard us) @ lit '' candidate image URLs''] @
                   out ds @
                   [lit ''Downloaded '' @ dec (saved ds) @ lit '' images to images/''])
           of (d, lines', err) \<Rightarrow> \<lparr>final_disk = d, stdout = lines', crashed = err\<rparr>))"

section \<open>Notions for the statements, and concrete runs\<close>

text \<open>Reading a decimal numeral back.\<close>

definition undec :: "str \<Rightarrow> nat" where
  "undec s = foldl (\<lambda>a c. 10 * a + (c - 0x30)) 0 s"

text \<open>Lines 89 to 93: the response is neither too small nor of another kind.\<close>

definition accepted :: "response \<Rightarrow> bool" where
  "accepted r = (MIN_SIZE \<le> length (content r) \<and> py_in (lit ''image'') (content_type r))"

text \<open>The effect of one recorded call of \<^verbatim>\<open>write_bytes\<close> on the images directory.\<close>

definition apply_write ::
  "str \<times> str \<times> bytes \<Rightarrow> (path, entry) fmap \<Rightarrow> (path, entry) fmap" where
  "apply_write x m = (case x of (u, nm, data) \<Rightarrow> fmupd [nm] (File data) m)"

text \<open>The name and the bytes of a recorded call of \<^verbatim>\<open>write_bytes\<close>.\<close>

definition written_name :: "str \<times> str \<times> bytes \<Rightarrow> str" where
  "written_name x = fst (snd x)"

definition written_data :: "str \<times> str \<times> bytes \<Rightarrow> bytes" where
  "written_data x = snd (snd x)"



text \<open>The exception that a failure of the disk raises.\<close>

fun fault_exn :: "'a fault \<Rightarrow> exn" where
  "fault_exn (OpenFails e) = e"
| "fault_exn (WriteFails e left) = e"

text \<open>
  The reading of "an image type from an allowlist": the content type names an image and
  its subtype, as line 94 extracts it, is one of the extensions of line 95.
\<close>

definition allowlisted_image_type :: "str \<Rightarrow> bool" where
  "allowlisted_image_type ct = (py_in (lit ''image'') ct \<and> ct_subtype ct \<in> EXT_ALLOW)"

text \<open>A server that answers every request with a bitmap of \<^verbatim>\<open>MIN_SIZE\<close> bytes.\<close>

definition bmp_response :: response where
  "bmp_response =
     \<lparr>content = replicate MIN_SIZE CHR ''x'',
      headers = [lit ''content-type'' \<mapsto> lit ''image/bmp'']\<rparr>"

definition bmp_world :: world where
  "bmp_world = \<lparr>http_get = (\<lambda>u. Inr bmp_response), disk_fault = (\<lambda>u. None)\<rparr>"

definition empty_disk :: fs where
  "empty_disk = \<lparr>images = fmempty, index_html = None\<rparr>"

text \<open>A response that is too small, and a server that gives it.\<close>

definition tiny_response :: response where
  "tiny_response =
     \<lparr>content = ''GIF89a'', headers = [lit ''content-type'' \<mapsto> lit ''image/gif'']\<rparr>"

definition tiny_world :: world where
  "tiny_world = \<lparr>http_get = (\<lambda>u. Inr tiny_response), disk_fault = (\<lambda>u. None)\<rparr>"

text \<open>
  A server that gives a PNG picture for the URL \<^verbatim>\<open>a\<close> and a JPEG picture for every
  other one; and the same server with a disk that fills up while a file is written.
\<close>

definition png_response :: response where
  "png_response =
     \<lparr>content = replicate MIN_SIZE CHR ''p'',
      headers = [lit ''content-type'' \<mapsto> lit ''image/png'']\<rparr>"

definition jpeg_response :: response where
  "jpeg_response =
     \<lparr>content = replicate MIN_SIZE CHR ''j'',
      headers = [lit ''content-type'' \<mapsto> lit ''image/jpeg; charset=binary'']\<rparr>"

definition mixed_world :: world where
  "mixed_world =
     \<lparr>http_get = (\<lambda>u. if u = lit ''a'' then Inr png_response else Inr jpeg_response),
      disk_fault = (\<lambda>u. None)\<rparr>"

definition full_disk_world :: world where
  "full_disk_world =
     \<lparr>http_get = (\<lambda>u. Inr png_response),
      disk_fault = (\<lambda>u. Some (WriteFails (Exception (lit ''[Errno 28] No space left on device'')) []))\<rparr>"




text \<open>The URLs that the two scans of one content find.\<close>

definition found :: "regex \<Rightarrow> str \<Rightarrow> str fset" where
  "found re cont = scan_img re cont (scan_ou re cont {||})"

text \<open>
  The content that an iteration starting in the state \<open>st\<close> scans, if it gets as far as
  scanning; and the content that iteration \<open>i\<close> of the loop on the page \<open>p\<close> scans.
\<close>

definition step_content :: "('c, 'p) browser \<Rightarrow> 'p collect_state \<Rightarrow> str option" where
  "step_content br st =
     (case stopped st of
        Some e \<Rightarrow> None
      | None \<Rightarrow>
     (case press_end br (page st) of
        Inl e \<Rightarrow> None
      | Inr p1 \<Rightarrow>
     (case wait_for_timeout br 2000 p1 of
        Inl e \<Rightarrow> None
      | Inr p2 \<Rightarrow>
     (case page_content br p2 of
        Inl e \<Rightarrow> None
      | Inr cont \<Rightarrow> Some cont))))"

definition scanned :: "('c, 'p) browser \<Rightarrow> regex \<Rightarrow> 'p \<Rightarrow> nat \<Rightarrow> str option" where
  "scanned br re p i = step_content br (collect_loop br re i p)"

text \<open>
  Whether an iteration starting in the state \<open>st\<close> finds the button; whether iteration \<open>i\<close>
  does; and the calls of an iteration that completes.
\<close>

definition step_button :: "('c, 'p) browser \<Rightarrow> 'p collect_state \<Rightarrow> bool" where
  "step_button br st =
     (case press_end br (page st) of
        Inl e \<Rightarrow> False
      | Inr p1 \<Rightarrow>
     (case wait_for_timeout br 2000 p1 of
        Inl e \<Rightarrow> False
      | Inr p2 \<Rightarrow>
     (case show_more br p2 of
        Inl e \<Rightarrow> False
      | Inr btn \<Rightarrow> btn)))"

definition button_shown :: "('c, 'p) browser \<Rightarrow> regex \<Rightarrow> 'p \<Rightarrow> nat \<Rightarrow> bool" where
  "button_shown br re p i = step_button br (collect_loop br re i p)"

definition iteration_actions :: "('c, 'p) browser \<Rightarrow> regex \<Rightarrow> 'p \<Rightarrow> nat \<Rightarrow> action list" where
  "iteration_actions br re p i =
     [PressEnd, Wait 2000, Content, QuerySelector] @
     (if button_shown br re p i then [Click, Wait 1500] else [])"

text \<open>
  A browser none of whose calls raises, with an empty page without the button; the same
  with the button in every iteration; and one whose button cannot be clicked.
\<close>

definition idle_browser :: "(unit, unit) browser" where
  "idle_browser =
     \<lparr>new_context = Inr (), add_cookies = (\<lambda>cs c. Inr c), open_page = (\<lambda>c u. Inr ()),
      press_end = (\<lambda>p. Inr p), wait_for_timeout = (\<lambda>t p. Inr p),
      page_content = (\<lambda>p. Inr []), show_more = (\<lambda>p. Inr False), click = (\<lambda>p. Inr p),
      close_browser = (\<lambda>p. None)\<rparr>"

definition button_browser :: "(unit, unit) browser" where
  "button_browser = idle_browser\<lparr>show_more := (\<lambda>p. Inr True)\<rparr>"

definition stuck_browser :: "(unit, unit) browser" where
  "stuck_browser =
     idle_browser\<lparr>show_more := (\<lambda>p. Inr True),
       click := (\<lambda>p. Inl (Exception (lit ''Timeout 30000ms exceeded.'')))\<rparr>"

text \<open>Patterns that match nothing, and patterns that find one URL in every text.\<close>

definition no_match :: regex where
  "no_match = \<lparr>ou_matches = (\<lambda>c. []), img_matches = (\<lambda>c. []), host_match = (\<lambda>u. None)\<rparr>"

definition one_match :: regex where
  "one_match =
     \<lparr>ou_matches = (\<lambda>c. [lit ''http://example.org/a.bmp'']), img_matches = (\<lambda>c. []),
      host_match = (\<lambda>u. None)\<rparr>"

section \<open>Properties of the script\<close>

subsection \<open>The string methods\<close>

lemma split_not_Nil: "split sep s \<noteq> []"
  by (induction s) (auto split: list.splits)

lemma hd_split: "hd (split sep s) = takeWhile (\<lambda>c. c \<noteq> sep) s"
  using split_not_Nil [of sep] by (induction s) (auto split: list.splits)

lemma join_split: "join [sep] (split sep s) = s"
proof (induction s)
  case Nil
  show ?case by simp
next
  case (Cons c s)
  obtain p ps where ps: "split sep s = p # ps"
    using split_not_Nil [of sep s] by (cases "split sep s") auto
  with Cons show ?case by (cases ps) auto
qed

lemma sep_notin_split: "p \<in> set (split sep s) \<Longrightarrow> sep \<notin> set p"
  by (induction s arbitrary: p) (auto split: list.splits if_splits)

lemma split_single: "split sep s = [p] \<Longrightarrow> p = s"
  using join_split [of sep s] by simp

lemma split_no_sep: "sep \<notin> set s \<Longrightarrow> split sep s = [s]"
  by (induction s) auto

lemma last_split_suffix: "suffix (last (split sep s)) s"
proof (induction s)
  case Nil
  show ?case by simp
next
  case (Cons c s)
  obtain p ps where ps: "split sep s = p # ps"
    using split_not_Nil [of sep s] by (cases "split sep s") auto
  show ?case
  proof (cases ps)
    case Nil
    with ps have "p = s" by (simp add: split_single)
    with ps Nil show ?thesis by (simp add: suffix_Cons)
  next
    case (Cons q qs)
    with ps \<open>suffix (last (split sep s)) s\<close> show ?thesis by (simp add: suffix_Cons)
  qed
qed

lemma strip_no_space:
  "s \<noteq> [] \<Longrightarrow> \<not> py_isspace (hd s) \<Longrightarrow> \<not> py_isspace (last s) \<Longrightarrow> strip s = s"
proof -
  assume s: "s \<noteq> []" and h: "\<not> py_isspace (hd s)" and l: "\<not> py_isspace (last s)"
  from s h have "dropWhile py_isspace s = s" by (cases s) auto
  moreover from s l have "dropWhile py_isspace (rev s) = rev s"
    by (cases "rev s") (auto simp: last_rev [symmetric] simp del: last_rev)
  ultimately show ?thesis by (simp add: strip_def)
qed

subsection \<open>The numbered file names\<close>

lemma set_dec: "set (dec n) \<subseteq> {0x30..0x39}"
proof (induction n rule: dec.induct)
  case (1 n)
  show ?case
  proof (cases "n < 10")
    case True
    then show ?thesis by (subst dec.simps) (simp add: digit_char_def)
  next
    case False
    have "n mod 10 < 10" by simp
    then have "digit_char (n mod 10) \<in> {0x30..0x39}" by (simp add: digit_char_def)
    with False 1 show ?thesis by (subst dec.simps) simp
  qed
qed

lemma undec_snoc: "undec (s @ [c]) = 10 * undec s + (c - 0x30)"
  by (simp add: undec_def)

lemma undec_dec: "undec (dec n) = n"
proof (induction n rule: dec.induct)
  case (1 n)
  show ?case
  proof (cases "n < 10")
    case True
    then show ?thesis by (subst dec.simps) (simp add: undec_def digit_char_def)
  next
    case False
    with 1 show ?thesis by (subst dec.simps) (simp add: undec_snoc digit_char_def)
  qed
qed

lemma undec_zeros: "undec (replicate k 0x30 @ s) = undec s"
  by (induction k) (simp_all add: undec_def)

lemma undec_fmt_04d: "undec (fmt_04d n) = n"
  by (simp add: fmt_04d_def undec_zeros undec_dec)

lemma set_fmt_04d: "set (fmt_04d n) \<subseteq> {0x30..0x39}"
  using set_dec [of n] by (auto simp: fmt_04d_def)

lemma dot_notin_fmt_04d: "0x2E \<notin> set (fmt_04d n)"
  using set_fmt_04d [of n] by auto

lemma length_dec_pos: "0 < length (dec n)"
  by (subst dec.simps) simp

lemma length_dec_small: "n < 10000 \<Longrightarrow> length (dec n) \<le> 4"
  by (subst dec.simps, simp, subst dec.simps, simp, subst dec.simps, simp, subst dec.simps, simp)

lemma length_fmt_04d: "length (fmt_04d n) = max 4 (length (dec n))"
  by (simp add: fmt_04d_def)

lemma lit_dot: "lit ''.'' = [0x2E]"
  by (simp add: lit_def)

lemma dest_name_inj: "dest_name k e = dest_name k' e' \<Longrightarrow> k = k' \<and> e = e'"
proof -
  assume "dest_name k e = dest_name k' e'"
  then have eq: "fmt_04d k @ 0x2E # e = fmt_04d k' @ 0x2E # e'"
    by (simp add: dest_name_def lit_dot)
  have "takeWhile (\<lambda>c. c \<noteq> 0x2E) (fmt_04d k @ 0x2E # e) = fmt_04d k"
    using dot_notin_fmt_04d [of k] by (subst takeWhile_append2) auto
  moreover have "takeWhile (\<lambda>c. c \<noteq> 0x2E) (fmt_04d k' @ 0x2E # e') = fmt_04d k'"
    using dot_notin_fmt_04d [of k'] by (subst takeWhile_append2) auto
  ultimately have f: "fmt_04d k = fmt_04d k'" using eq by simp
  then have "undec (fmt_04d k) = undec (fmt_04d k')" by simp
  then have "k = k'" by (simp add: undec_fmt_04d)
  with eq f show ?thesis by simp
qed

lemma dest_ext_allowed: "dest_ext ct \<in> EXT_ALLOW"
  by (simp add: dest_ext_def Let_def EXT_ALLOW_def)

subsection \<open>The steps of \<^verbatim>\<open>download\<close>\<close>

lemma write_bytes_effect:
  "write_bytes w u d nm data = (d', left, r) \<Longrightarrow>
     index_html d' = index_html d \<and>
     images d' = (case left of None \<Rightarrow> images d | Some b \<Rightarrow> fmupd [nm] (File b) (images d))"
  by (auto simp: write_bytes_def split: option.splits fault.splits if_splits)

lemma write_bytes_returns:
  "write_bytes w u d nm data = (d', left, None) \<Longrightarrow>
     left = Some data \<and> d' = d\<lparr>images := fmupd [nm] (File data) (images d)\<rparr> \<and>
     disk_fault w u = None \<and> fmlookup (images d) [nm] \<noteq> Some Dir"
  by (auto simp: write_bytes_def split: option.splits fault.splits if_splits)


lemma download_step_get_fails:
  "http_get w u = Inl e \<Longrightarrow>
     download_step w u st = st\<lparr>gets := gets st @ [u], out := out st @ [skip_line u e]\<rparr>"
  by (simp add: download_step_def)

lemma download_step_rejected:
  "http_get w u = Inr r \<Longrightarrow> \<not> accepted r \<Longrightarrow>
     download_step w u st = st\<lparr>gets := gets st @ [u]\<rparr>"
  by (auto simp: download_step_def accepted_def Let_def)

lemma download_step_write_fails:
  "http_get w u = Inr r \<Longrightarrow> accepted r \<Longrightarrow>
   write_bytes w u (disk st) (dest_name (saved st) (dest_ext (content_type r))) (content r) =
     (d, left, Some e) \<Longrightarrow>
     download_step w u st =
       st\<lparr>gets := gets st @ [u], disk := d,
          touched := touched st @
            (case left of None \<Rightarrow> []
             | Some b \<Rightarrow> [(u, dest_name (saved st) (dest_ext (content_type r)), b)]),
          out := out st @ [skip_line u e]\<rparr>"
  by (auto simp: download_step_def accepted_def Let_def split: option.splits)

lemma download_step_saves:
  "http_get w u = Inr r \<Longrightarrow> accepted r \<Longrightarrow>
   write_bytes w u (disk st) (dest_name (saved st) (dest_ext (content_type r))) (content r) =
     (d, left, None) \<Longrightarrow>
     download_step w u st =
       st\<lparr>gets := gets st @ [u], disk := d,
          touched := touched st @
            [(u, dest_name (saved st) (dest_ext (content_type r)), content r)],
          saved := saved st + 1,
          out := out st @
            [saved_line (saved st + 1) (dest_name (saved st) (dest_ext (content_type r)))
               (length (content r))],
          writes := writes st @
            [(u, dest_name (saved st) (dest_ext (content_type r)), content r)]\<rparr>"
  using write_bytes_returns
    [of w u "disk st" "dest_name (saved st) (dest_ext (content_type r))" "content r" d left]
  by (auto simp: download_step_def accepted_def Let_def)

lemma download_step_cases:
  obtains
    (get_fails) e where "http_get w u = Inl e"
  | (rejected) r where "http_get w u = Inr r" "\<not> accepted r"
  | (write_fails) r d left e where "http_get w u = Inr r" "accepted r"
      "write_bytes w u (disk st) (dest_name (saved st) (dest_ext (content_type r))) (content r) =
         (d, left, Some e)"
  | (saves) r d left where "http_get w u = Inr r" "accepted r"
      "write_bytes w u (disk st) (dest_name (saved st) (dest_ext (content_type r))) (content r) =
         (d, left, None)"
proof (cases "http_get w u")
  case (Inl e)
  then show ?thesis by (rule get_fails)
next
  case (Inr r)
  show ?thesis
  proof (cases "accepted r")
    case False
    with Inr show ?thesis by (rule rejected)
  next
    case True
    obtain d left raised where wb:
      "write_bytes w u (disk st) (dest_name (saved st) (dest_ext (content_type r))) (content r) =
         (d, left, raised)"
      by (cases "write_bytes w u (disk st)
            (dest_name (saved st) (dest_ext (content_type r))) (content r)") auto
    show ?thesis
    proof (cases raised)
      case None
      with Inr True wb show ?thesis by (auto intro: saves)
    next
      case (Some e)
      with Inr True wb show ?thesis by (auto intro: write_fails)
    qed
  qed
qed

lemmas download_step_simps =
  download_step_get_fails download_step_rejected download_step_write_fails download_step_saves

lemma download_loop_Nil [simp]: "download_loop w [] st = st"
  by (simp add: download_loop_def)

lemma download_loop_Cons [simp]:
  "download_loop w (u # us) st = download_loop w us (download_step w u st)"
  by (simp add: download_loop_def)

lemma download_loop_snoc:
  "download_loop w (us @ [u]) st = download_step w u (download_loop w us st)"
  by (simp add: download_loop_def)



lemma saved_download_loop:
  "saved (download_loop w us (download_init d)) = length (writes (download_loop w us (download_init d)))"
proof (induction us rule: rev_induct)
  case Nil
  show ?case by (simp add: download_init_def)
next
  case (snoc u us)
  show ?case
    using snoc
    by (cases rule: download_step_cases [where w=w and u=u and st="download_loop w us (download_init d)"])
       (simp_all add: download_loop_snoc download_step_simps)
qed

lemma writes_download_loop:
  "k < length (writes (download_loop w us (download_init d))) \<Longrightarrow>
     \<exists>u r. writes (download_loop w us (download_init d)) ! k =
              (u, dest_name k (dest_ext (content_type r)), content r) \<and>
           u \<in> set us \<and> http_get w u = Inr r \<and> accepted r \<and> disk_fault w u = None"
proof (induction us arbitrary: k rule: rev_induct)
  case Nil
  then show ?case by (simp add: download_init_def)
next
  case (snoc u us)
  let ?S = "download_loop w us (download_init d)"
  show ?case
  proof (cases rule: download_step_cases [where w=w and u=u and st="?S"])
    case (get_fails e)
    with snoc show ?thesis
      by (fastforce simp: download_loop_snoc download_step_get_fails)
  next
    case (rejected r)
    with snoc show ?thesis
      by (fastforce simp: download_loop_snoc download_step_rejected)
  next
    case (write_fails r d' left e)
    with snoc show ?thesis
      by (fastforce simp: download_loop_snoc download_step_write_fails)
  next
    case (saves r d' left)
    have w: "writes (download_loop w (us @ [u]) (download_init d)) =
               writes ?S @ [(u, dest_name (length (writes ?S)) (dest_ext (content_type r)), content r)]"
      using saves by (simp add: download_loop_snoc download_step_saves saved_download_loop)
    have nofault: "disk_fault w u = None"
      using write_bytes_returns [OF saves(3)] by simp
    show ?thesis
    proof (cases "k < length (writes ?S)")
      case True
      with snoc.IH [of k] w show ?thesis by (fastforce simp: nth_append)
    next
      case False
      with snoc.prems w have "k = length (writes ?S)" by simp
      with w saves nofault show ?thesis by (simp add: nth_append)
    qed
  qed
qed

lemma touched_download_loop:
  "x \<in> set (touched (download_loop w us (download_init d))) \<Longrightarrow>
     \<exists>u r k b. x = (u, dest_name k (dest_ext (content_type r)), b) \<and>
           u \<in> set us \<and> http_get w u = Inr r \<and> accepted r"
proof (induction us rule: rev_induct)
  case Nil
  then show ?case by (simp add: download_init_def)
next
  case (snoc u us)
  let ?S = "download_loop w us (download_init d)"
  show ?case
  proof (cases rule: download_step_cases [where w=w and u=u and st="?S"])
    case (get_fails e)
    with snoc show ?thesis
      by (fastforce simp: download_loop_snoc download_step_get_fails)
  next
    case (rejected r)
    with snoc show ?thesis
      by (fastforce simp: download_loop_snoc download_step_rejected)
  next
    case (write_fails r d' left e)
    with snoc show ?thesis
      by (fastforce simp: download_loop_snoc download_step_write_fails split: option.splits)
  next
    case (saves r d' left)
    with snoc show ?thesis
      by (fastforce simp: download_loop_snoc download_step_saves)
  qed
qed

lemma writes_subset_touched:
  "set (writes (download_loop w us (download_init d))) \<subseteq>
     set (touched (download_loop w us (download_init d)))"
proof (induction us rule: rev_induct)
  case Nil
  show ?case by (simp add: download_init_def)
next
  case (snoc u us)
  show ?case
    using snoc
    by (cases rule: download_step_cases [where w=w and u=u and st="download_loop w us (download_init d)"])
       (auto simp: download_loop_snoc download_step_simps)
qed

lemma index_html_download_loop:
  "index_html (disk (download_loop w us st)) = index_html (disk st)"
proof (induction us arbitrary: st)
  case Nil
  show ?case by simp
next
  case (Cons u us)
  have "index_html (disk (download_step w u st)) = index_html (disk st)"
    by (cases rule: download_step_cases [where w=w and u=u and st=st])
       (auto simp: download_step_simps dest: write_bytes_effect)
  with Cons show ?case by simp
qed

lemma images_download_loop:
  "images (disk (download_loop w us (download_init d))) =
     fold apply_write (touched (download_loop w us (download_init d))) (images d)"
proof (induction us rule: rev_induct)
  case Nil
  show ?case by (simp add: download_init_def)
next
  case (snoc u us)
  let ?S = "download_loop w us (download_init d)"
  show ?case
  proof (cases rule: download_step_cases [where w=w and u=u and st="?S"])
    case (get_fails e)
    with snoc show ?thesis by (simp add: download_loop_snoc download_step_get_fails)
  next
    case (rejected r)
    with snoc show ?thesis by (simp add: download_loop_snoc download_step_rejected)
  next
    case (write_fails r d' left e)
    from write_bytes_effect [OF write_fails(3)] snoc show ?thesis
      by (auto simp: download_loop_snoc download_step_write_fails [OF write_fails]
            apply_write_def split: option.splits)
  next
    case (saves r d' left)
    from write_bytes_returns [OF saves(3)] snoc show ?thesis
      by (simp add: download_loop_snoc download_step_saves [OF saves] apply_write_def)
  qed
qed

subsection \<open>Failures leave the other URLs alone\<close>


lemma distinct_sorted_list_of_fset: "distinct (sorted_list_of_fset A)"
  by (simp add: sorted_list_of_fset.rep_eq)

lemma sorted_sorted_list_of_fset: "sorted (sorted_list_of_fset A)"
  by (simp add: sorted_list_of_fset.rep_eq)

lemma sorted_list_of_fset_single: "sorted_list_of_fset {|x|} = [x]"
  by (simp add: sorted_list_of_fset.rep_eq)















lemma write_bytes_fault_exn:
  "disk_fault w u = Some f \<Longrightarrow> write_bytes w u d nm data = (d', left, r) \<Longrightarrow>
     r = Some (fault_exn f) \<or> r = Some (Exception (lit ''[Errno 21] Is a directory''))"
  by (cases f) (auto simp: write_bytes_def split: if_splits)



subsection \<open>A run on a concrete server\<close>

lemma write_bytes_ok:
  "disk_fault w u = None \<Longrightarrow> fmlookup (images d) [nm] \<noteq> Some Dir \<Longrightarrow>
     write_bytes w u d nm data =
       (d\<lparr>images := fmupd [nm] (File data) (images d)\<rparr>, Some data, None)"
  by (simp add: write_bytes_def)

lemmas ext_eval =
  dest_ext_def ct_subtype_def lit_def strip_def py_isspace_def EXT_ALLOW_def

lemma bmp_accepted: "accepted bmp_response"
proof -
  have "py_in (lit ''image'') (lit ''image/bmp'')" by code_simp
  then show ?thesis by (simp add: accepted_def bmp_response_def content_type_def)
qed

lemma bmp_dest_ext: "dest_ext (content_type bmp_response) = lit ''jpg''"
proof -
  have "dest_ext (lit ''image/bmp'') = lit ''jpg''" by (simp add: ext_eval)
  then show ?thesis by (simp add: bmp_response_def content_type_def)
qed

lemma dest_name_0: "dest_name 0 (lit ''jpg'') = lit ''img_0000.jpg''"
  by code_simp

lemma dest_name_1: "dest_name (Suc 0) (lit ''jpg'') = lit ''img_0001.jpg''"
  by code_simp

lemma bmp_step_0:
  "download_step bmp_world u (download_init empty_disk) =
     \<lparr>saved = 1,
      disk = \<lparr>images = fmupd [lit ''img_0000.jpg''] (File (content bmp_response)) fmempty,
              index_html = None\<rparr>,
      out = [saved_line 1 (lit ''img_0000.jpg'') MIN_SIZE],
      gets = [u],
      writes = [(u, lit ''img_0000.jpg'', content bmp_response)],
      touched = [(u, lit ''img_0000.jpg'', content bmp_response)]\<rparr>"
proof -
  have g: "http_get bmp_world u = Inr bmp_response" by (simp add: bmp_world_def)
  have w: "write_bytes bmp_world u (disk (download_init empty_disk))
             (dest_name (saved (download_init empty_disk)) (dest_ext (content_type bmp_response)))
             (content bmp_response) =
           (\<lparr>images = fmupd [lit ''img_0000.jpg''] (File (content bmp_response)) fmempty,
             index_html = None\<rparr>, Some (content bmp_response), None)"
    by (simp add: write_bytes_def bmp_world_def download_init_def empty_disk_def bmp_dest_ext
          dest_name_0)
  show ?thesis
    by (simp add: download_step_saves [OF g bmp_accepted w] bmp_dest_ext)
       (simp add: download_init_def dest_name_0 bmp_response_def)
qed

lemma bmp_download_single:
  "writes (download bmp_world {|u|} empty_disk) = [(u, lit ''img_0000.jpg'', content bmp_response)]"
  by (simp add: download_def sorted_list_of_fset_single bmp_step_0)

text \<open>
  C2, as stated, fails: a response of \<^verbatim>\<open>MIN_SIZE\<close> bytes whose content type is
  \<^verbatim>\<open>image/bmp\<close>, which is no image type of the allowlist, is written to the disk, as
  \<^verbatim>\<open>img_0000.jpg\<close>.
\<close>

theorem download_allowlist_counterexample:
  "http_get bmp_world (lit ''u'') = Inr bmp_response \<and>
   headers bmp_response (lit ''content-type'') = Some (lit ''image/bmp'') \<and>
   \<not> allowlisted_image_type (lit ''image/bmp'') \<and>
   writes (download bmp_world {|lit ''u''|} empty_disk) =
     [(lit ''u'', lit ''img_0000.jpg'', content bmp_response)] \<and>
   fmlookup (images (disk (download bmp_world {|lit ''u''|} empty_disk))) [lit ''img_0000.jpg''] =
     Some (File (content bmp_response))"
proof -
  have "\<not> allowlisted_image_type (lit ''image/bmp'')"
    by (simp add: allowlisted_image_type_def ext_eval)
  moreover have "http_get bmp_world (lit ''u'') = Inr bmp_response" by (simp add: bmp_world_def)
  moreover have "headers bmp_response (lit ''content-type'') = Some (lit ''image/bmp'')"
    by (simp add: bmp_response_def)
  moreover have "fmlookup (images (disk (download bmp_world {|lit ''u''|} empty_disk)))
                   [lit ''img_0000.jpg''] = Some (File (content bmp_response))"
    by (simp add: download_def sorted_list_of_fset_single bmp_step_0)
  ultimately show ?thesis by (simp add: bmp_download_single)
qed

lemma writes_download:
  assumes "x \<in> set (writes (download w us d))"
  shows "\<exists>k u r. x = (u, dest_name k (dest_ext (content_type r)), content r) \<and>
           k < length (writes (download w us d)) \<and> writes (download w us d) ! k = x \<and>
           u |\<in>| us \<and> http_get w u = Inr r \<and> accepted r \<and> disk_fault w u = None"
proof -
  from assms obtain k where k: "k < length (writes (download w us d))"
    and x: "writes (download w us d) ! k = x"
    by (auto simp: in_set_conv_nth)
  from writes_download_loop [of k w "sorted_list_of_fset us" d] k
  obtain u r where "writes (download w us d) ! k =
      (u, dest_name k (dest_ext (content_type r)), content r)"
    "u \<in> set (sorted_list_of_fset us)" "http_get w u = Inr r" "accepted r"
    "disk_fault w u = None"
    by (auto simp: download_def)
  with k x show ?thesis by auto
qed

lemma touched_download:
  assumes "x \<in> set (touched (download w us d))"
  shows "\<exists>u r k b. x = (u, dest_name k (dest_ext (content_type r)), b) \<and>
           u |\<in>| us \<and> http_get w u = Inr r \<and> accepted r"
  using touched_download_loop [of x w "sorted_list_of_fset us" d] assms
  by (auto simp: download_def)

text \<open>
  C2, amended. A body is written only for a URL of the set whose response has at least
  \<^verbatim>\<open>MIN_SIZE\<close> bytes and a content type (\<^verbatim>\<open>image/jpeg\<close> when the header is absent) that
  contains \<^verbatim>\<open>image\<close>, and only for such a response is a file opened at all; a response
  that is smaller, or whose content type does not contain \<^verbatim>\<open>image\<close>, leaves the counter,
  the disk and the output as they were; and the images directory after the pass is the
  one before it with the recorded effects of \<^verbatim>\<open>write_bytes\<close> applied, \<^verbatim>\<open>index.html\<close>
  untouched.
\<close>

theorem download_filter:
  "(\<forall>u nm data. (u, nm, data) \<in> set (writes (download w us d)) \<longrightarrow>
      u |\<in>| us \<and>
      (\<exists>r. http_get w u = Inr r \<and> data = content r \<and>
           MIN_SIZE \<le> length (content r) \<and> py_in (lit ''image'') (content_type r))) \<and>
   (\<forall>u nm data. (u, nm, data) \<in> set (touched (download w us d)) \<longrightarrow>
      u |\<in>| us \<and>
      (\<exists>r. http_get w u = Inr r \<and>
           MIN_SIZE \<le> length (content r) \<and> py_in (lit ''image'') (content_type r))) \<and>
   (\<forall>u r st. http_get w u = Inr r \<and>
      (length (content r) < MIN_SIZE \<or> \<not> py_in (lit ''image'') (content_type r)) \<longrightarrow>
      download_step w u st = st\<lparr>gets := gets st @ [u]\<rparr>) \<and>
   images (disk (download w us d)) = fold apply_write (touched (download w us d)) (images d) \<and>
   index_html (disk (download w us d)) = index_html d"
proof (intro conjI allI impI)
  fix u nm data
  assume "(u, nm, data) \<in> set (writes (download w us d))"
  from writes_download [OF this]
  show "u |\<in>| us"
    and "\<exists>r. http_get w u = Inr r \<and> data = content r \<and>
           MIN_SIZE \<le> length (content r) \<and> py_in (lit ''image'') (content_type r)"
    by (auto simp: accepted_def)
next
  fix u nm data
  assume "(u, nm, data) \<in> set (touched (download w us d))"
  from touched_download [OF this]
  show "u |\<in>| us"
    and "\<exists>r. http_get w u = Inr r \<and>
           MIN_SIZE \<le> length (content r) \<and> py_in (lit ''image'') (content_type r)"
    by (auto simp: accepted_def)
next
  fix u r st
  assume "http_get w u = Inr r \<and>
      (length (content r) < MIN_SIZE \<or> \<not> py_in (lit ''image'') (content_type r))"
  then show "download_step w u st = st\<lparr>gets := gets st @ [u]\<rparr>"
    by (intro download_step_rejected) (auto simp: accepted_def)
next
  show "images (disk (download w us d)) = fold apply_write (touched (download w us d)) (images d)"
    by (simp add: download_def images_download_loop)
next
  show "index_html (disk (download w us d)) = index_html d"
    by (simp add: download_def index_html_download_loop download_init_def)
qed

theorem download_filter_witness:
  "(lit ''u'', lit ''img_0000.jpg'', content bmp_response) \<in>
       set (writes (download bmp_world {|lit ''u''|} empty_disk)) \<and>
   lit ''u'' |\<in>| {|lit ''u''|} \<and>
   (\<exists>r. http_get bmp_world (lit ''u'') = Inr r \<and> content bmp_response = content r \<and>
        MIN_SIZE \<le> length (content r) \<and> py_in (lit ''image'') (content_type r)) \<and>
   http_get tiny_world (lit ''u'') = Inr tiny_response \<and>
   length (content tiny_response) < MIN_SIZE \<and>
   download_step tiny_world (lit ''u'') (download_init empty_disk) =
     (download_init empty_disk)\<lparr>gets := gets (download_init empty_disk) @ [lit ''u'']\<rparr>"
proof -
  have m: "(lit ''u'', lit ''img_0000.jpg'', content bmp_response) \<in>
       set (writes (download bmp_world {|lit ''u''|} empty_disk))"
    by (simp add: bmp_download_single)
  have g: "http_get tiny_world (lit ''u'') = Inr tiny_response" by (simp add: tiny_world_def)
  have l: "length (content tiny_response) < MIN_SIZE"
    by (simp add: tiny_response_def MIN_SIZE_def)
  from download_filter [of bmp_world "{|lit ''u''|}" empty_disk] m
  have a: "lit ''u'' |\<in>| {|lit ''u''|} \<and>
     (\<exists>r. http_get bmp_world (lit ''u'') = Inr r \<and> content bmp_response = content r \<and>
        MIN_SIZE \<le> length (content r) \<and> py_in (lit ''image'') (content_type r))"
    by blast
  from download_filter [of tiny_world "{||}" empty_disk] g l
  have b: "download_step tiny_world (lit ''u'') (download_init empty_disk) =
     (download_init empty_disk)\<lparr>gets := gets (download_init empty_disk) @ [lit ''u'']\<rparr>"
    by blast
  from m a g l b show ?thesis by simp
qed

subsection \<open>The files of a download pass\<close>

lemma fmlookup_apply_write:
  "fmlookup (apply_write x m) p =
     (if p = [written_name x] then Some (File (written_data x)) else fmlookup m p)"
  by (cases x) (simp add: apply_write_def written_name_def written_data_def)

lemma fmdom_fold_apply_write:
  "fmdom (fold apply_write ws m) = fmdom m |\<union>| fset_of_list (map (\<lambda>x. [written_name x]) ws)"
  by (induction ws arbitrary: m) (auto simp: apply_write_def written_name_def split: prod.splits)

lemma written_name_download:
  "k < length (writes (download w us d)) \<Longrightarrow>
     \<exists>r. written_name (writes (download w us d) ! k) = dest_name k (dest_ext (content_type r))"
  using writes_download_loop [of k w "sorted_list_of_fset us" d]
  by (auto simp: download_def written_name_def)

lemma distinct_written_names: "distinct (map written_name (writes (download w us d)))"
proof -
  have "i = j" if "i < length (writes (download w us d))" "j < length (writes (download w us d))"
    "written_name (writes (download w us d) ! i) = written_name (writes (download w us d) ! j)"
    for i j
  proof -
    from written_name_download [OF that(1)] obtain r where
      r: "written_name (writes (download w us d) ! i) = dest_name i (dest_ext (content_type r))"
      by blast
    from written_name_download [OF that(2)] obtain r' where
      r': "written_name (writes (download w us d) ! j) = dest_name j (dest_ext (content_type r'))"
      by blast
    from r r' that(3)
    have "dest_name i (dest_ext (content_type r)) = dest_name j (dest_ext (content_type r'))"
      by simp
    then show "i = j" by (simp add: dest_name_inj)
  qed
  then show ?thesis by (auto simp: distinct_conv_nth)
qed

lemma written_files_kept:
  "k < length (writes (download_loop w us (download_init d))) \<Longrightarrow>
     fmlookup (images (disk (download_loop w us (download_init d))))
       [written_name (writes (download_loop w us (download_init d)) ! k)] =
     Some (File (written_data (writes (download_loop w us (download_init d)) ! k)))"
proof (induction us arbitrary: k rule: rev_induct)
  case Nil
  then show ?case by (simp add: download_init_def)
next
  case (snoc u us)
  let ?S = "download_loop w us (download_init d)"
  have old: "written_name (writes ?S ! k) \<noteq> dest_name (saved ?S) e" if "k < length (writes ?S)" for k e
  proof -
    from writes_download_loop [OF that] obtain r where
      "written_name (writes ?S ! k) = dest_name k (dest_ext (content_type r))"
      by (auto simp: written_name_def)
    moreover have "k \<noteq> saved ?S" using that by (simp add: saved_download_loop)
    ultimately show ?thesis using dest_name_inj by force
  qed
  show ?case
  proof (cases rule: download_step_cases [where w=w and u=u and st="?S"])
    case (get_fails e)
    with snoc show ?thesis by (simp add: download_loop_snoc download_step_get_fails)
  next
    case (rejected r)
    with snoc show ?thesis by (simp add: download_loop_snoc download_step_rejected)
  next
    case (write_fails r d' left e)
    from snoc.prems have k: "k < length (writes ?S)"
      by (simp add: download_loop_snoc download_step_write_fails [OF write_fails])
    from write_bytes_effect [OF write_fails(3)] snoc.IH [OF k]
      old [OF k, of "dest_ext (content_type r)"]
    show ?thesis
      by (auto simp: download_loop_snoc download_step_write_fails [OF write_fails]
            split: option.splits)
  next
    case (saves r d' left)
    note wr = write_bytes_returns [OF saves(3)]
    show ?thesis
    proof (cases "k < length (writes ?S)")
      case True
      with wr snoc.IH [OF True] old [OF True, of "dest_ext (content_type r)"] show ?thesis
        by (simp add: download_loop_snoc download_step_saves [OF saves] nth_append)
    next
      case False
      with snoc.prems have "k = length (writes ?S)"
        by (simp add: download_loop_snoc download_step_saves [OF saves])
      with wr show ?thesis
        by (simp add: download_loop_snoc download_step_saves [OF saves] nth_append
              written_name_def written_data_def)
    qed
  qed
qed

lemma write_bytes_left:
  "write_bytes w u d nm data = (d', Some b, Some e) \<Longrightarrow> disk_fault w u = Some (WriteFails e b)"
  by (auto simp: write_bytes_def split: option.splits fault.splits if_splits)

lemma touched_not_written:
  "x \<in> set (touched (download_loop w us (download_init d))) \<Longrightarrow>
   x \<notin> set (writes (download_loop w us (download_init d))) \<Longrightarrow>
     \<exists>u e. u \<in> set us \<and> disk_fault w u = Some (WriteFails e (written_data x))"
proof (induction us rule: rev_induct)
  case Nil
  then show ?case by (simp add: download_init_def)
next
  case (snoc u us)
  let ?S = "download_loop w us (download_init d)"
  show ?case
  proof (cases rule: download_step_cases [where w=w and u=u and st="?S"])
    case (get_fails e)
    with snoc show ?thesis by (fastforce simp: download_loop_snoc download_step_get_fails)
  next
    case (rejected r)
    with snoc show ?thesis by (fastforce simp: download_loop_snoc download_step_rejected)
  next
    case (write_fails r d' left e)
    show ?thesis
    proof (cases "x \<in> set (touched ?S)")
      case True
      with snoc write_fails show ?thesis
        by (fastforce simp: download_loop_snoc download_step_write_fails [OF write_fails])
    next
      case False
      with snoc.prems(1) obtain b where b: "left = Some b"
        "x = (u, dest_name (saved ?S) (dest_ext (content_type r)), b)"
        by (auto simp: download_loop_snoc download_step_write_fails [OF write_fails]
              split: option.splits)
      from write_fails(3) b(1) have "disk_fault w u = Some (WriteFails e b)"
        by (simp add: write_bytes_left)
      with b show ?thesis by (auto simp: written_data_def)
    qed
  next
    case (saves r d' left)
    with snoc show ?thesis
      by (fastforce simp: download_loop_snoc download_step_saves [OF saves])
  qed
qed

lemma touched_eq_writes:
  "(\<And>u e left. u \<in> set us \<Longrightarrow> disk_fault w u \<noteq> Some (WriteFails e left)) \<Longrightarrow>
     touched (download_loop w us (download_init d)) = writes (download_loop w us (download_init d))"
proof (induction us rule: rev_induct)
  case Nil
  show ?case by (simp add: download_init_def)
next
  case (snoc u us)
  let ?S = "download_loop w us (download_init d)"
  from snoc have IH: "touched ?S = writes ?S" by simp
  show ?case
  proof (cases rule: download_step_cases [where w=w and u=u and st="?S"])
    case (get_fails e)
    with IH show ?thesis by (simp add: download_loop_snoc download_step_get_fails)
  next
    case (rejected r)
    with IH show ?thesis by (simp add: download_loop_snoc download_step_rejected)
  next
    case (write_fails r d' left e)
    have "left = None"
    proof (cases left)
      case None
      then show ?thesis .
    next
      case (Some b)
      with write_fails(3) have "disk_fault w u = Some (WriteFails e b)"
        by (simp add: write_bytes_left)
      with snoc.prems [of u e b] show ?thesis by simp
    qed
    with IH show ?thesis
      by (simp add: download_loop_snoc download_step_write_fails [OF write_fails])
  next
    case (saves r d' left)
    with IH show ?thesis by (simp add: download_loop_snoc download_step_saves [OF saves])
  qed
qed

lemma dest_ext_of_allowed: "e \<in> EXT_ALLOW \<Longrightarrow> dest_ext (lit ''image/'' @ e) = e"
proof -
  have "dest_ext (lit ''image/'' @ lit ''jpg'') = lit ''jpg''" by (simp add: ext_eval)
  moreover have "dest_ext (lit ''image/'' @ lit ''png'') = lit ''png''" by (simp add: ext_eval)
  moreover have "dest_ext (lit ''image/'' @ lit ''gif'') = lit ''gif''" by (simp add: ext_eval)
  moreover have "dest_ext (lit ''image/'' @ lit ''webp'') = lit ''webp''" by (simp add: ext_eval)
  moreover have "dest_ext (lit ''image/'' @ lit ''avif'') = lit ''avif''" by (simp add: ext_eval)
  moreover assume "e \<in> EXT_ALLOW"
  ultimately show ?thesis unfolding EXT_ALLOW_def by blast
qed

lemma dest_ext_jpeg: "dest_ext (lit ''image/jpeg'') = lit ''jpg''"
  by (simp add: ext_eval)

lemma download_step_eval_saves:
  assumes "http_get w u = Inr r" "accepted r" "disk_fault w u = None"
    and "fmlookup (images (disk st)) [dest_name (saved st) (dest_ext (content_type r))] \<noteq> Some Dir"
  shows "download_step w u st =
       st\<lparr>gets := gets st @ [u],
          disk := (disk st)\<lparr>images :=
            fmupd [dest_name (saved st) (dest_ext (content_type r))] (File (content r))
              (images (disk st))\<rparr>,
          touched := touched st @
            [(u, dest_name (saved st) (dest_ext (content_type r)), content r)],
          saved := saved st + 1,
          out := out st @
            [saved_line (saved st + 1) (dest_name (saved st) (dest_ext (content_type r)))
               (length (content r))],
          writes := writes st @
            [(u, dest_name (saved st) (dest_ext (content_type r)), content r)]\<rparr>"
  by (rule download_step_saves [OF assms(1,2) write_bytes_ok [OF assms(3,4)]])

lemma png_accepted: "accepted png_response" "dest_ext (content_type png_response) = lit ''png''"
proof -
  have "py_in (lit ''image'') (lit ''image/png'')" by code_simp
  then show "accepted png_response"
    by (simp add: accepted_def png_response_def content_type_def)
  have "dest_ext (lit ''image/png'') = lit ''png''" by (simp add: ext_eval)
  then show "dest_ext (content_type png_response) = lit ''png''"
    by (simp add: png_response_def content_type_def)
qed

lemma jpeg_accepted:
  "accepted jpeg_response" "dest_ext (content_type jpeg_response) = lit ''jpg''"
proof -
  have "py_in (lit ''image'') (lit ''image/jpeg; charset=binary'')" by code_simp
  then show "accepted jpeg_response"
    by (simp add: accepted_def jpeg_response_def content_type_def)
  have "dest_ext (lit ''image/jpeg; charset=binary'') = lit ''jpg''" by (simp add: ext_eval)
  then show "dest_ext (content_type jpeg_response) = lit ''jpg''"
    by (simp add: jpeg_response_def content_type_def)
qed

lemma length_content:
  "length (content png_response) = MIN_SIZE" "length (content jpeg_response) = MIN_SIZE"
  by (simp_all add: png_response_def jpeg_response_def)

lemma dest_name_0_png: "dest_name 0 (lit ''png'') = lit ''img_0000.png''"
  by code_simp

lemma sorted_ab: "sorted_list_of_fset {|lit ''b'', lit ''a''|} = [lit ''a'', lit ''b'']"
  by code_simp

lemma mixed_download:
  "download mixed_world {|lit ''b'', lit ''a''|} empty_disk =
     \<lparr>saved = 2,
      disk = \<lparr>images = fmupd [lit ''img_0001.jpg''] (File (content jpeg_response))
                (fmupd [lit ''img_0000.png''] (File (content png_response)) fmempty),
              index_html = None\<rparr>,
      out = [saved_line 1 (lit ''img_0000.png'') MIN_SIZE,
             saved_line 2 (lit ''img_0001.jpg'') MIN_SIZE],
      gets = [lit ''a'', lit ''b''],
      writes = [(lit ''a'', lit ''img_0000.png'', content png_response),
                (lit ''b'', lit ''img_0001.jpg'', content jpeg_response)],
      touched = [(lit ''a'', lit ''img_0000.png'', content png_response),
                 (lit ''b'', lit ''img_0001.jpg'', content jpeg_response)]\<rparr>"
proof -
  have ga: "http_get mixed_world (lit ''a'') = Inr png_response"
    and gb: "http_get mixed_world (lit ''b'') = Inr jpeg_response"
    and f: "disk_fault mixed_world u = None" for u
    by (simp_all add: mixed_world_def lit_def)
  have 1: "download_step mixed_world (lit ''a'') (download_init empty_disk) =
     \<lparr>saved = 1,
      disk = \<lparr>images = fmupd [lit ''img_0000.png''] (File (content png_response)) fmempty,
              index_html = None\<rparr>,
      out = [saved_line 1 (lit ''img_0000.png'') MIN_SIZE],
      gets = [lit ''a''],
      writes = [(lit ''a'', lit ''img_0000.png'', content png_response)],
      touched = [(lit ''a'', lit ''img_0000.png'', content png_response)]\<rparr>"
    by (subst download_step_eval_saves [OF ga png_accepted(1) f])
       (simp_all add: download_init_def empty_disk_def png_accepted(2) dest_name_0_png
          length_content)
  have n: "lit ''img_0000.png'' \<noteq> lit ''img_0001.jpg''" by (simp add: lit_def)
  show ?thesis
    unfolding download_def sorted_ab download_loop_Cons download_loop_Nil 1
    by (subst download_step_eval_saves [OF gb jpeg_accepted(1) f])
       (simp_all add: jpeg_accepted(2) dest_name_1 length_content numeral_2_eq_2 n)
qed

lemma full_disk_download:
  "download full_disk_world {|lit ''u''|} empty_disk =
     \<lparr>saved = 0,
      disk = \<lparr>images = fmupd [lit ''img_0000.png''] (File []) fmempty, index_html = None\<rparr>,
      out = [skip_line (lit ''u'') (Exception (lit ''[Errno 28] No space left on device''))],
      gets = [lit ''u''],
      writes = [],
      touched = [(lit ''u'', lit ''img_0000.png'', [])]\<rparr>"
proof -
  have g: "http_get full_disk_world (lit ''u'') = Inr png_response"
    by (simp add: full_disk_world_def)
  have w: "write_bytes full_disk_world (lit ''u'') (disk (download_init empty_disk))
      (dest_name (saved (download_init empty_disk)) (dest_ext (content_type png_response)))
      (content png_response) =
      (\<lparr>images = fmupd [lit ''img_0000.png''] (File []) fmempty, index_html = None\<rparr>,
       Some [], Some (Exception (lit ''[Errno 28] No space left on device'')))"
    by (simp add: write_bytes_def full_disk_world_def download_init_def empty_disk_def
          png_accepted(2) dest_name_0_png)
  show ?thesis
    unfolding download_def sorted_list_of_fset_single download_loop_Cons download_loop_Nil
    by (subst download_step_write_fails [OF g png_accepted(1) w])
       (simp add: download_init_def png_accepted(2) dest_name_0_png)
qed

text \<open>
  C5, as stated, fails on the number returned: when the disk fills up while the one
  accepted picture is written, \<^verbatim>\<open>write_bytes\<close> raises after it created the file, so the
  pass leaves the file \<^verbatim>\<open>img_0000.png\<close> (empty) on the disk and returns 0.
\<close>

theorem download_count_counterexample:
  "saved (download full_disk_world {|lit ''u''|} empty_disk) = 0 \<and>
   fmlookup (images empty_disk) [lit ''img_0000.png''] = None \<and>
   fmlookup (images (disk (download full_disk_world {|lit ''u''|} empty_disk)))
     [lit ''img_0000.png''] = Some (File [])"
  unfolding full_disk_download by (simp add: empty_disk_def)

text \<open>
  C5, amended. The calls of \<^verbatim>\<open>write_bytes\<close> that return are numbered from 0 without a
  gap: call number \<open>k\<close> writes the body of an accepted response to \<^verbatim>\<open>img_\<close>, then \<open>k\<close>
  padded with zeros to four digits, a dot and the extension inferred from the content
  type of that response (the subtype of line 94 when it is one of \<^verbatim>\<open>jpg, png, gif, webp,
  avif\<close>, so \<^verbatim>\<open>png\<close> for \<^verbatim>\<open>image/png\<close> and \<^verbatim>\<open>jpg\<close> for \<^verbatim>\<open>image/jpeg\<close>; \<^verbatim>\<open>jpg\<close> otherwise). These
  names differ from one another, every such file is on the disk with its bytes after
  the pass, and \<^verbatim>\<open>download\<close> returns the number of these calls. A file that the pass
  opened and that is not one of them was left, created or truncated, by a write that
  raised, and is not counted; when no write raises after opening its file, the files
  the pass wrote are exactly the numbered ones.
\<close>

theorem download_numbering:
  "saved (download w us d) = length (writes (download w us d)) \<and>
   distinct (map written_name (writes (download w us d))) \<and>
   (\<forall>k < length (writes (download w us d)).
      (\<exists>u r. u |\<in>| us \<and> http_get w u = Inr r \<and>
         writes (download w us d) ! k =
           (u, lit ''img_'' @ fmt_04d k @ lit ''.'' @ dest_ext (content_type r), content r) \<and>
         dest_ext (content_type r) \<in> EXT_ALLOW) \<and>
      undec (fmt_04d k) = k \<and> length (fmt_04d k) = max 4 (length (dec k)) \<and>
      fmlookup (images (disk (download w us d))) [written_name (writes (download w us d) ! k)] =
        Some (File (written_data (writes (download w us d) ! k)))) \<and>
   (\<forall>e \<in> EXT_ALLOW. dest_ext (lit ''image/'' @ e) = e) \<and>
   dest_ext (lit ''image/jpeg'') = lit ''jpg'' \<and>
   dest_ext ct = (if ct_subtype ct \<in> EXT_ALLOW then ct_subtype ct else lit ''jpg'') \<and>
   ct_subtype ct =
     replace (lit ''jpeg'') (lit ''jpg'')
       (strip (hd (split (of_char CHR '';'') (last (split (of_char CHR ''/'') ct))))) \<and>
   (\<forall>x \<in> set (touched (download w us d)).
      x \<notin> set (writes (download w us d)) \<longrightarrow>
      (\<exists>u e. u |\<in>| us \<and> disk_fault w u = Some (WriteFails e (written_data x)))) \<and>
   ((\<forall>u e left. u |\<in>| us \<longrightarrow> disk_fault w u \<noteq> Some (WriteFails e left)) \<longrightarrow>
      touched (download w us d) = writes (download w us d)) \<and>
   images (disk (download w us d)) = fold apply_write (touched (download w us d)) (images d)"
proof (intro conjI allI impI ballI)
  show "saved (download w us d) = length (writes (download w us d))"
    by (simp add: download_def saved_download_loop)
next
  show "distinct (map written_name (writes (download w us d)))"
    by (rule distinct_written_names)
next
  fix k
  assume k: "k < length (writes (download w us d))"
  from writes_download_loop [of k w "sorted_list_of_fset us" d] k
  show "\<exists>u r. u |\<in>| us \<and> http_get w u = Inr r \<and>
         writes (download w us d) ! k =
           (u, lit ''img_'' @ fmt_04d k @ lit ''.'' @ dest_ext (content_type r), content r) \<and>
         dest_ext (content_type r) \<in> EXT_ALLOW"
    by (fastforce simp: download_def dest_name_def dest_ext_allowed)
  show "undec (fmt_04d k) = k" by (rule undec_fmt_04d)
  show "length (fmt_04d k) = max 4 (length (dec k))" by (rule length_fmt_04d)
  from k show "fmlookup (images (disk (download w us d)))
        [written_name (writes (download w us d) ! k)] =
      Some (File (written_data (writes (download w us d) ! k)))"
    unfolding download_def by (rule written_files_kept)
next
  fix e
  assume "e \<in> EXT_ALLOW"
  then show "dest_ext (lit ''image/'' @ e) = e" by (rule dest_ext_of_allowed)
next
  show "dest_ext (lit ''image/jpeg'') = lit ''jpg''" by (rule dest_ext_jpeg)
next
  show "dest_ext ct = (if ct_subtype ct \<in> EXT_ALLOW then ct_subtype ct else lit ''jpg'')"
    by (simp add: dest_ext_def)
next
  show "ct_subtype ct =
     replace (lit ''jpeg'') (lit ''jpg'')
       (strip (hd (split (of_char CHR '';'') (last (split (of_char CHR ''/'') ct)))))"
    by (simp add: ct_subtype_def)
next
  fix x
  assume "x \<in> set (touched (download w us d))" "x \<notin> set (writes (download w us d))"
  then show "\<exists>u e. u |\<in>| us \<and> disk_fault w u = Some (WriteFails e (written_data x))"
    using touched_not_written [of x w "sorted_list_of_fset us" d] by (auto simp: download_def)
next
  assume "\<forall>u e left. u |\<in>| us \<longrightarrow> disk_fault w u \<noteq> Some (WriteFails e left)"
  then show "touched (download w us d) = writes (download w us d)"
    unfolding download_def by (intro touched_eq_writes) auto
next
  show "images (disk (download w us d)) = fold apply_write (touched (download w us d)) (images d)"
    by (simp add: download_def images_download_loop)
qed

theorem download_numbering_witness:
  "1 < length (writes (download mixed_world {|lit ''b'', lit ''a''|} empty_disk)) \<and>
   saved (download mixed_world {|lit ''b'', lit ''a''|} empty_disk) = 2 \<and>
   writes (download mixed_world {|lit ''b'', lit ''a''|} empty_disk) =
     [(lit ''a'', lit ''img_0000.png'', content png_response),
      (lit ''b'', lit ''img_0001.jpg'', content jpeg_response)] \<and>
   (\<exists>u r. u |\<in>| {|lit ''b'', lit ''a''|} \<and> http_get mixed_world u = Inr r \<and>
      writes (download mixed_world {|lit ''b'', lit ''a''|} empty_disk) ! 1 =
        (u, lit ''img_'' @ fmt_04d 1 @ lit ''.'' @ dest_ext (content_type r), content r) \<and>
      dest_ext (content_type r) \<in> EXT_ALLOW) \<and>
   fmlookup (images (disk (download mixed_world {|lit ''b'', lit ''a''|} empty_disk)))
     [lit ''img_0001.jpg''] = Some (File (content jpeg_response)) \<and>
   lit ''png'' \<in> EXT_ALLOW \<and> dest_ext (lit ''image/'' @ lit ''png'') = lit ''png'' \<and>
   touched (download mixed_world {|lit ''b'', lit ''a''|} empty_disk) =
     writes (download mixed_world {|lit ''b'', lit ''a''|} empty_disk) \<and>
   (lit ''u'', lit ''img_0000.png'', []) \<in>
     set (touched (download full_disk_world {|lit ''u''|} empty_disk)) \<and>
   (lit ''u'', lit ''img_0000.png'', []) \<notin>
     set (writes (download full_disk_world {|lit ''u''|} empty_disk)) \<and>
   (\<exists>u e. u |\<in>| {|lit ''u''|} \<and> disk_fault full_disk_world u = Some (WriteFails e []))"
proof -
  note mixed = download_numbering [of mixed_world "{|lit ''b'', lit ''a''|}" empty_disk]
  note full = download_numbering [of full_disk_world "{|lit ''u''|}" empty_disk]
  have k: "1 < length (writes (download mixed_world {|lit ''b'', lit ''a''|} empty_disk))"
    by (simp add: mixed_download)
  have n: "written_name (writes (download mixed_world {|lit ''b'', lit ''a''|} empty_disk) ! 1) =
      lit ''img_0001.jpg''"
    "written_data (writes (download mixed_world {|lit ''b'', lit ''a''|} empty_disk) ! 1) =
      content jpeg_response"
    by (simp_all add: mixed_download written_name_def written_data_def)
  have w: "writes (download mixed_world {|lit ''b'', lit ''a''|} empty_disk) =
     [(lit ''a'', lit ''img_0000.png'', content png_response),
      (lit ''b'', lit ''img_0001.jpg'', content jpeg_response)]"
    by (simp add: mixed_download)
  from mixed have s: "saved (download mixed_world {|lit ''b'', lit ''a''|} empty_disk) = 2"
    by (simp add: w)
  from mixed k have 1: "\<exists>u r. u |\<in>| {|lit ''b'', lit ''a''|} \<and> http_get mixed_world u = Inr r \<and>
      writes (download mixed_world {|lit ''b'', lit ''a''|} empty_disk) ! 1 =
        (u, lit ''img_'' @ fmt_04d 1 @ lit ''.'' @ dest_ext (content_type r), content r) \<and>
      dest_ext (content_type r) \<in> EXT_ALLOW"
    by blast
  from mixed k have "fmlookup (images (disk (download mixed_world {|lit ''b'', lit ''a''|} empty_disk)))
      [written_name (writes (download mixed_world {|lit ''b'', lit ''a''|} empty_disk) ! 1)] =
      Some (File (written_data (writes (download mixed_world {|lit ''b'', lit ''a''|} empty_disk) ! 1)))"
    by blast
  then have 2: "fmlookup (images (disk (download mixed_world {|lit ''b'', lit ''a''|} empty_disk)))
     [lit ''img_0001.jpg''] = Some (File (content jpeg_response))"
    by (simp only: n)
  have p: "lit ''png'' \<in> EXT_ALLOW" by (simp add: EXT_ALLOW_def)
  from mixed p have 3: "dest_ext (lit ''image/'' @ lit ''png'') = lit ''png''" by blast
  have "\<forall>u e left. u |\<in>| {|lit ''b'', lit ''a''|} \<longrightarrow>
      disk_fault mixed_world u \<noteq> Some (WriteFails e left)"
    by (simp add: mixed_world_def)
  with mixed have 4: "touched (download mixed_world {|lit ''b'', lit ''a''|} empty_disk) =
     writes (download mixed_world {|lit ''b'', lit ''a''|} empty_disk)"
    by blast
  have t: "(lit ''u'', lit ''img_0000.png'', []) \<in>
     set (touched (download full_disk_world {|lit ''u''|} empty_disk))"
    "(lit ''u'', lit ''img_0000.png'', []) \<notin>
     set (writes (download full_disk_world {|lit ''u''|} empty_disk))"
    by (simp_all add: full_disk_download)
  with full have "\<exists>u e. u |\<in>| {|lit ''u''|} \<and>
      disk_fault full_disk_world u =
        Some (WriteFails e (written_data (lit ''u'', lit ''img_0000.png'', [])))"
    by blast
  then have 5: "\<exists>u e. u |\<in>| {|lit ''u''|} \<and> disk_fault full_disk_world u = Some (WriteFails e [])"
    by (simp add: written_data_def)
  from k s w 1 2 p 3 4 t 5 show ?thesis by (simp only: simp_thms)
qed

subsection \<open>Failures while downloading\<close>





subsection \<open>A response without a content type\<close>





subsection \<open>The collector\<close>

lemma collect_loop_0: "collect_loop br re 0 p = collect_init p"
  by (simp add: collect_loop_def)

lemma collect_loop_Suc:
  "collect_loop br re (Suc n) p = collect_step br re n (collect_loop br re n p)"
  by (simp add: collect_loop_def)

lemma collect_step_stopped: "stopped st = Some e \<Longrightarrow> collect_step br re i st = st"
  by (simp add: collect_step_def)

lemma scan_ou_union: "scan_ou re cont us = us |\<union>| fset_of_list (ou_matches re cont)"
proof -
  have "fold (\<lambda>m acc. finsert m acc) ms us = us |\<union>| fset_of_list ms" for ms
    by (induction ms arbitrary: us) auto
  then show ?thesis by (simp add: scan_ou_def)
qed

lemma add_img_union: "add_img re m acc = acc |\<union>| add_img re m {||}"
  by (auto simp: add_img_def Let_def split: option.splits)

lemma scan_img_union: "scan_img re cont us = us |\<union>| scan_img re cont {||}"
proof -
  have "fold (add_img re) ms us = us |\<union>| fold (add_img re) ms {||}" for ms
  proof (induction ms arbitrary: us)
    case Nil
    show ?case by simp
  next
    case (Cons m ms)
    have "fold (add_img re) (m # ms) us = add_img re m us |\<union>| fold (add_img re) ms {||}"
      using Cons [of "add_img re m us"] by simp
    also have "\<dots> = us |\<union>| (add_img re m {||} |\<union>| fold (add_img re) ms {||})"
      using add_img_union [of re m us] by auto
    also have "add_img re m {||} |\<union>| fold (add_img re) ms {||} = fold (add_img re) (m # ms) {||}"
      using Cons [of "add_img re m {||}"] by simp
    finally show ?case .
  qed
  then show ?thesis by (simp add: scan_img_def)
qed

lemma scans_union: "scan_img re cont (scan_ou re cont us) = us |\<union>| found re cont"
proof -
  have "scan_img re cont (scan_ou re cont us) = scan_ou re cont us |\<union>| scan_img re cont {||}"
    by (rule scan_img_union)
  also have "\<dots> = us |\<union>| (scan_ou re cont {||} |\<union>| scan_img re cont {||})"
    using scan_ou_union [of re cont us] scan_ou_union [of re cont "{||}"] by auto
  also have "scan_ou re cont {||} |\<union>| scan_img re cont {||} = found re cont"
    unfolding found_def by (rule scan_img_union [symmetric])
  finally show ?thesis .
qed

lemma urls_collect_step:
  "urls (collect_step br re i st) =
     urls st |\<union>| (case step_content br st of None \<Rightarrow> {||} | Some c \<Rightarrow> found re c)"
  by (simp add: collect_step_def step_content_def halt_def Let_def scans_union
        split: option.splits sum.splits)

lemma urls_collect_loop_Suc:
  "urls (collect_loop br re (Suc i) p) =
     urls (collect_loop br re i p) |\<union>|
     (case scanned br re p i of None \<Rightarrow> {||} | Some c \<Rightarrow> found re c)"
  by (simp add: collect_loop_Suc urls_collect_step scanned_def)

lemma urls_collect_loop_mono:
  "i \<le> j \<Longrightarrow> urls (collect_loop br re i p) |\<subseteq>| urls (collect_loop br re j p)"
proof (induction j)
  case 0
  then show ?case by simp
next
  case (Suc j)
  show ?case
  proof (cases "i = Suc j")
    case True
    then show ?thesis by simp
  next
    case False
    with Suc have "urls (collect_loop br re i p) |\<subseteq>| urls (collect_loop br re j p)" by simp
    then show ?thesis unfolding urls_collect_loop_Suc by auto
  qed
qed

lemma collect_step_completes:
  assumes "stopped (collect_step br re i st) = None"
  shows "stopped st = None"
    and "actions (collect_step br re i st) =
      actions st @ [PressEnd, Wait 2000, Content, QuerySelector] @
      (if step_button br st then [Click, Wait 1500] else [])"
    and "printed (collect_step br re i st) =
      printed st @ [scroll_line i (fcard (urls (collect_step br re i st)))]"
  using assms
  by (auto simp: collect_step_def step_button_def halt_def Let_def
        split: option.splits sum.splits if_splits)

lemma stopped_collect_loop_le:
  "stopped (collect_loop br re n p) = None \<Longrightarrow> m \<le> n \<Longrightarrow>
     stopped (collect_loop br re m p) = None"
proof (induction n)
  case 0
  then show ?case by simp
next
  case (Suc n)
  from Suc.prems(1) have "stopped (collect_loop br re n p) = None"
    unfolding collect_loop_Suc by (rule collect_step_completes(1))
  with Suc show ?case by (cases "m = Suc n") simp_all
qed

lemma actions_collect_loop:
  "stopped (collect_loop br re n p) = None \<Longrightarrow>
     actions (collect_loop br re n p) = concat (map (iteration_actions br re p) [0..<n])"
proof (induction n)
  case 0
  show ?case by (simp add: collect_loop_0 collect_init_def)
next
  case (Suc n)
  from Suc.prems have s: "stopped (collect_step br re n (collect_loop br re n p)) = None"
    by (simp add: collect_loop_Suc)
  from collect_step_completes(1) [OF s] Suc.IH
  have "actions (collect_loop br re n p) = concat (map (iteration_actions br re p) [0..<n])"
    by simp
  moreover have "iteration_actions br re p n =
      [PressEnd, Wait 2000, Content, QuerySelector] @
      (if step_button br (collect_loop br re n p) then [Click, Wait 1500] else [])"
    by (simp add: iteration_actions_def button_shown_def)
  ultimately show ?case
    using collect_step_completes(2) [OF s] by (simp add: collect_loop_Suc)
qed

lemma printed_collect_loop:
  "stopped (collect_loop br re n p) = None \<Longrightarrow>
     printed (collect_loop br re n p) =
       map (\<lambda>i. scroll_line i (fcard (urls (collect_loop br re (Suc i) p)))) [0..<n]"
proof (induction n)
  case 0
  show ?case by (simp add: collect_loop_0 collect_init_def)
next
  case (Suc n)
  from Suc.prems have s: "stopped (collect_step br re n (collect_loop br re n p)) = None"
    by (simp add: collect_loop_Suc)
  from collect_step_completes(1) [OF s] Suc.IH
  have "printed (collect_loop br re n p) =
      map (\<lambda>i. scroll_line i (fcard (urls (collect_loop br re (Suc i) p)))) [0..<n]"
    by simp
  with collect_step_completes(3) [OF s] show ?case
    by (simp add: collect_loop_Suc)
qed

lemma count_iteration_actions:
  "length (filter (\<lambda>a. a = PressEnd) (iteration_actions br re p i)) = 1 \<and>
   length (filter (\<lambda>a. a = Content) (iteration_actions br re p i)) = 1 \<and>
   length (filter (\<lambda>a. a = QuerySelector) (iteration_actions br re p i)) = 1 \<and>
   length (filter (\<lambda>a. a = Click) (iteration_actions br re p i)) \<le> 1"
  by (simp add: iteration_actions_def)

lemma count_concat:
  "(\<And>i. length (filter P (f i)) = 1) \<Longrightarrow> length (filter P (concat (map f [0..<n]))) = n"
  by (induction n) simp_all

lemma count_concat_le:
  "(\<And>i. length (filter P (f i)) \<le> 1) \<Longrightarrow> length (filter P (concat (map f [0..<n]))) \<le> n"
proof (induction n)
  case 0
  show ?case by simp
next
  case (Suc n)
  from Suc.prems have a: "length (filter P (f n)) \<le> 1" .
  from Suc have b: "length (filter P (concat (map f [0..<n]))) \<le> n" by simp
  from a b show ?case by simp
qed

lemma collect_step_never_raises:
  assumes "\<forall>x e. press_end br x \<noteq> Inl e" "\<forall>t x e. wait_for_timeout br t x \<noteq> Inl e"
    "\<forall>x e. page_content br x \<noteq> Inl e" "\<forall>x e. show_more br x \<noteq> Inl e"
    "\<forall>x e. click br x \<noteq> Inl e" "stopped st = None"
  shows "stopped (collect_step br re i st) = None"
  using assms
  by (auto simp: collect_step_def halt_def Let_def split: option.splits sum.splits)

lemma collect_loop_never_raises:
  assumes "\<forall>x e. press_end br x \<noteq> Inl e" "\<forall>t x e. wait_for_timeout br t x \<noteq> Inl e"
    "\<forall>x e. page_content br x \<noteq> Inl e" "\<forall>x e. show_more br x \<noteq> Inl e"
    "\<forall>x e. click br x \<noteq> Inl e"
  shows "stopped (collect_loop br re n p) = None"
proof (induction n)
  case 0
  show ?case by (simp add: collect_loop_0 collect_init_def)
next
  case (Suc n)
  then show ?case
    unfolding collect_loop_Suc by (rule collect_step_never_raises [OF assms])
qed

lemma length_collect_step:
  "length (actions (collect_step br re i st)) \<le> length (actions st) + 6 \<and>
   length (printed (collect_step br re i st)) =
     (if stopped (collect_step br re i st) = None then length (printed st) + 1
      else length (printed st))"
  by (auto simp: collect_step_def halt_def Let_def split: option.splits sum.splits)

lemma length_collect_loop:
  "length (actions (collect_loop br re n p)) \<le> 6 * n \<and>
   (stopped (collect_loop br re n p) = None \<longrightarrow> length (printed (collect_loop br re n p)) = n) \<and>
   (stopped (collect_loop br re n p) \<noteq> None \<longrightarrow> length (printed (collect_loop br re n p)) < n)"
proof (induction n)
  case 0
  show ?case by (simp add: collect_loop_0 collect_init_def)
next
  case (Suc n)
  let ?S = "collect_loop br re n p"
  note l = length_collect_step [of br re n ?S]
  show ?case
  proof (cases "stopped (collect_step br re n ?S)")
    case None
    from collect_step_completes(1) [OF None] have "stopped ?S = None" .
    with Suc l None show ?thesis by (simp add: collect_loop_Suc)
  next
    case (Some e)
    have "length (printed ?S) \<le> n" using Suc by (cases "stopped ?S") auto
    with Suc l Some show ?thesis by (simp add: collect_loop_Suc)
  qed
qed

lemma collect_step_same_calls:
  assumes "page st = page st'" "actions st = actions st'" "stopped st = stopped st'"
    "length (printed st) = length (printed st')"
  shows "page (collect_step br re i st) = page (collect_step br re' i st') \<and>
         actions (collect_step br re i st) = actions (collect_step br re' i st') \<and>
         stopped (collect_step br re i st) = stopped (collect_step br re' i st') \<and>
         length (printed (collect_step br re i st)) =
           length (printed (collect_step br re' i st'))"
  using assms
  by (auto simp: collect_step_def halt_def Let_def split: option.splits sum.splits)

lemma collect_loop_same_calls:
  "page (collect_loop br re n p) = page (collect_loop br re' n p) \<and>
   actions (collect_loop br re n p) = actions (collect_loop br re' n p) \<and>
   stopped (collect_loop br re n p) = stopped (collect_loop br re' n p) \<and>
   length (printed (collect_loop br re n p)) = length (printed (collect_loop br re' n p))"
proof (induction n)
  case 0
  show ?case by (simp add: collect_loop_0 collect_init_def)
next
  case (Suc n)
  then show ?case unfolding collect_loop_Suc by (intro collect_step_same_calls) simp_all
qed

lemma stuck_collect_loop:
  "collect_loop stuck_browser no_match (Suc n) () =
     \<lparr>urls = {||}, page = (), printed = [],
      actions = [PressEnd, Wait 2000, Content, QuerySelector, Click],
      stopped = Some (Exception (lit ''Timeout 30000ms exceeded.''))\<rparr>"
proof (induction n)
  case 0
  show ?case
    unfolding collect_loop_Suc collect_loop_0
    by (simp add: collect_step_def collect_init_def stuck_browser_def idle_browser_def halt_def
          no_match_def scan_img_def scan_ou_def)
next
  case (Suc n)
  show ?case
    unfolding collect_loop_Suc [of _ _ "Suc n"] Suc
    by (rule collect_step_stopped) simp
qed

text \<open>
  C3, as stated, fails: there is no handler in the loop, so a call on the page that
  raises ends it. On a page whose button cannot be clicked, the click of the first
  iteration raises: End is pressed once, no line is printed, and the exception leaves
  \<^verbatim>\<open>collect_image_urls\<close> after one incomplete iteration instead of 15.
\<close>

theorem collect_raises_counterexample:
  "stopped (collect_image_urls stuck_browser no_match ()) =
     Some (Exception (lit ''Timeout 30000ms exceeded.'')) \<and>
   actions (collect_image_urls stuck_browser no_match ()) =
     [PressEnd, Wait 2000, Content, QuerySelector, Click] \<and>
   printed (collect_image_urls stuck_browser no_match ()) = []"
proof -
  have "collect_image_urls stuck_browser no_match () =
      collect_loop stuck_browser no_match (Suc 14) ()"
    by (simp add: collect_image_urls_def SCROLL_TIMES_def)
  then show ?thesis unfolding stuck_collect_loop by simp
qed

text \<open>
  C3, amended. \<^verbatim>\<open>collect_image_urls\<close> always ends, after at most \<^verbatim>\<open>SCROLL_TIMES = 15\<close>
  iterations and at most 90 calls on the page. When no call on the page raises, and
  more generally whenever it returns, it has performed exactly 15 iterations: the calls
  are those of iterations 0 to 14 in turn, each one pressing End, waiting 2000 ms,
  reading the content once (which both patterns scan), querying the button, and
  clicking it (with a wait of 1500 ms) when it is there; 15 lines are printed. When a
  call raises, the loop ends there with fewer than 15 lines printed. The calls made,
  their number, and whether and how the loop ends do not depend on the patterns, and so
  not on the URLs found.
\<close>

theorem collect_fixed_budget:
  "SCROLL_TIMES = 15 \<and>
   (stopped (collect_image_urls br re p) = None \<longrightarrow>
      actions (collect_image_urls br re p) =
        concat (map (iteration_actions br re p) [0..<15]) \<and>
      length (filter (\<lambda>a. a = PressEnd) (actions (collect_image_urls br re p))) = 15 \<and>
      length (filter (\<lambda>a. a = Content) (actions (collect_image_urls br re p))) = 15 \<and>
      length (filter (\<lambda>a. a = QuerySelector) (actions (collect_image_urls br re p))) = 15 \<and>
      length (filter (\<lambda>a. a = Click) (actions (collect_image_urls br re p))) \<le> 15 \<and>
      printed (collect_image_urls br re p) =
        map (\<lambda>i. scroll_line i (fcard (urls (collect_loop br re (Suc i) p)))) [0..<15]) \<and>
   iteration_actions br re p i =
     [PressEnd, Wait 2000, Content, QuerySelector] @
     (if button_shown br re p i then [Click, Wait 1500] else []) \<and>
   ((\<forall>x e. press_end br x \<noteq> Inl e) \<and> (\<forall>t x e. wait_for_timeout br t x \<noteq> Inl e) \<and>
    (\<forall>x e. page_content br x \<noteq> Inl e) \<and> (\<forall>x e. show_more br x \<noteq> Inl e) \<and>
    (\<forall>x e. click br x \<noteq> Inl e) \<longrightarrow>
      stopped (collect_image_urls br re p) = None) \<and>
   (stopped (collect_image_urls br re p) \<noteq> None \<longrightarrow>
      length (printed (collect_image_urls br re p)) < 15) \<and>
   length (actions (collect_image_urls br re p)) \<le> 90 \<and>
   actions (collect_image_urls br re' p) = actions (collect_image_urls br re p) \<and>
   stopped (collect_image_urls br re' p) = stopped (collect_image_urls br re p) \<and>
   length (printed (collect_image_urls br re' p)) =
     length (printed (collect_image_urls br re p)) \<and>
   urls (collect_image_urls br re p) = urls (collect_loop br re 15 p)"
proof (intro conjI impI)
  show "SCROLL_TIMES = 15" by (simp add: SCROLL_TIMES_def)
  have c: "collect_image_urls br re p = collect_loop br re 15 p" for re
    by (simp add: collect_image_urls_def SCROLL_TIMES_def)
  show "urls (collect_image_urls br re p) = urls (collect_loop br re 15 p)"
    by (simp add: c)
  show "iteration_actions br re p i =
     [PressEnd, Wait 2000, Content, QuerySelector] @
     (if button_shown br re p i then [Click, Wait 1500] else [])"
    by (simp add: iteration_actions_def)
  show "length (actions (collect_image_urls br re p)) \<le> 90"
    using length_collect_loop [of br re 15 p] by (simp add: c)
  show "actions (collect_image_urls br re' p) = actions (collect_image_urls br re p)"
    and s: "stopped (collect_image_urls br re' p) = stopped (collect_image_urls br re p)"
    using collect_loop_same_calls [of br re 15 p re'] by (simp_all add: c)
  show "length (printed (collect_image_urls br re' p)) =
      length (printed (collect_image_urls br re p))"
    using collect_loop_same_calls [of br re 15 p re'] by (simp add: c)
next
  assume "(\<forall>x e. press_end br x \<noteq> Inl e) \<and> (\<forall>t x e. wait_for_timeout br t x \<noteq> Inl e) \<and>
    (\<forall>x e. page_content br x \<noteq> Inl e) \<and> (\<forall>x e. show_more br x \<noteq> Inl e) \<and>
    (\<forall>x e. click br x \<noteq> Inl e)"
  then show "stopped (collect_image_urls br re p) = None"
    by (simp add: collect_image_urls_def collect_loop_never_raises)
next
  assume "stopped (collect_image_urls br re p) \<noteq> None"
  then show "length (printed (collect_image_urls br re p)) < 15"
    using length_collect_loop [of br re 15 p]
    by (simp add: collect_image_urls_def SCROLL_TIMES_def)
next
  assume n: "stopped (collect_image_urls br re p) = None"
  then have n': "stopped (collect_loop br re 15 p) = None"
    by (simp add: collect_image_urls_def SCROLL_TIMES_def)
  show a: "actions (collect_image_urls br re p) =
      concat (map (iteration_actions br re p) [0..<15])"
    using actions_collect_loop [OF n'] by (simp add: collect_image_urls_def SCROLL_TIMES_def)
  show "printed (collect_image_urls br re p) =
     map (\<lambda>i. scroll_line i (fcard (urls (collect_loop br re (Suc i) p)))) [0..<15]"
    using printed_collect_loop [OF n'] by (simp add: collect_image_urls_def SCROLL_TIMES_def)
  show "length (filter (\<lambda>a. a = PressEnd) (actions (collect_image_urls br re p))) = 15"
    unfolding a by (rule count_concat) (simp add: count_iteration_actions)
  show "length (filter (\<lambda>a. a = Content) (actions (collect_image_urls br re p))) = 15"
    unfolding a by (rule count_concat) (simp add: count_iteration_actions)
  show "length (filter (\<lambda>a. a = QuerySelector) (actions (collect_image_urls br re p))) = 15"
    unfolding a by (rule count_concat) (simp add: count_iteration_actions)
  show "length (filter (\<lambda>a. a = Click) (actions (collect_image_urls br re p))) \<le> 15"
    unfolding a by (rule count_concat_le) (simp add: iteration_actions_def)
qed

theorem collect_fixed_budget_witness:
  "stopped (collect_image_urls idle_browser no_match ()) = None \<and>
   length (filter (\<lambda>a. a = PressEnd) (actions (collect_image_urls idle_browser no_match ()))) = 15 \<and>
   length (printed (collect_image_urls idle_browser no_match ())) = 15 \<and>
   iteration_actions idle_browser no_match () 14 = [PressEnd, Wait 2000, Content, QuerySelector] \<and>
   iteration_actions button_browser no_match () 14 =
     [PressEnd, Wait 2000, Content, QuerySelector, Click, Wait 1500] \<and>
   stopped (collect_image_urls stuck_browser no_match ()) \<noteq> None \<and>
   length (printed (collect_image_urls stuck_browser no_match ())) < 15 \<and>
   actions (collect_image_urls idle_browser one_match ()) =
     actions (collect_image_urls idle_browser no_match ())"
proof -
  note idle = collect_fixed_budget [of idle_browser no_match "()" 14 one_match]
  note button = collect_fixed_budget [of button_browser no_match "()" 14 no_match]
  note stuck = collect_fixed_budget [of stuck_browser no_match "()" 14 no_match]
  have "(\<forall>x e. press_end idle_browser x \<noteq> Inl e) \<and>
    (\<forall>t x e. wait_for_timeout idle_browser t x \<noteq> Inl e) \<and>
    (\<forall>x e. page_content idle_browser x \<noteq> Inl e) \<and>
    (\<forall>x e. show_more idle_browser x \<noteq> Inl e) \<and>
    (\<forall>x e. click idle_browser x \<noteq> Inl e)"
    by (simp add: idle_browser_def)
  note 0 = idle [THEN conjunct2, THEN conjunct2, THEN conjunct2, THEN conjunct1, rule_format,
    OF this]
  note r = idle [THEN conjunct2, THEN conjunct1, rule_format, OF 0]
  have 1: "length (filter (\<lambda>a. a = PressEnd)
      (actions (collect_image_urls idle_browser no_match ()))) = 15"
    by (rule r [THEN conjunct2, THEN conjunct1])
  have "printed (collect_image_urls idle_browser no_match ()) =
     map (\<lambda>i. scroll_line i (fcard (urls (collect_loop idle_browser no_match (Suc i) ()))))
       [0..<15]"
    by (rule r [THEN conjunct2, THEN conjunct2, THEN conjunct2, THEN conjunct2, THEN conjunct2])
  then have 2: "length (printed (collect_image_urls idle_browser no_match ())) = 15"
    by simp
  have i: "\<not> button_shown idle_browser no_match () 14"
    by (simp add: button_shown_def step_button_def idle_browser_def)
  have b: "button_shown button_browser no_match () 14"
    by (simp add: button_shown_def step_button_def button_browser_def idle_browser_def)
  have 3: "iteration_actions idle_browser no_match () 14 =
     [PressEnd, Wait 2000, Content, QuerySelector]"
    using idle [THEN conjunct2, THEN conjunct2, THEN conjunct1] i by simp
  have 4: "iteration_actions button_browser no_match () 14 =
     [PressEnd, Wait 2000, Content, QuerySelector, Click, Wait 1500]"
    using button [THEN conjunct2, THEN conjunct2, THEN conjunct1] b by simp
  have "collect_image_urls stuck_browser no_match () =
      collect_loop stuck_browser no_match (Suc 14) ()"
    by (simp add: collect_image_urls_def SCROLL_TIMES_def)
  then have 5: "stopped (collect_image_urls stuck_browser no_match ()) \<noteq> None"
    unfolding stuck_collect_loop by simp
  note 6 = stuck [THEN conjunct2, THEN conjunct2, THEN conjunct2, THEN conjunct2, THEN conjunct1,
    rule_format, OF 5]
  note 7 = idle [THEN conjunct2, THEN conjunct2, THEN conjunct2, THEN conjunct2, THEN conjunct2,
    THEN conjunct2, THEN conjunct1]
  from 0 1 2 3 4 5 6 7 show ?thesis by (intro conjI)
qed

subsection \<open>The set of candidate URLs\<close>

text \<open>
  C6. The candidate URLs are a finite set, so without duplicates: what the download
  pass iterates over has no repetition. The set only grows from one iteration to the
  next, and so over any number of iterations; an iteration adds exactly the URLs its two
  scans find (none when the iteration does not get to read the content) to the set it
  starts from, so that a scan whose URLs are all in the set already, and in particular a
  second scan of the same content, leaves it unchanged.
\<close>

theorem urls_grow_monotonically:
  "urls (collect_loop br re i p) |\<subseteq>| urls (collect_loop br re (Suc i) p) \<and>
   (i \<le> j \<longrightarrow> urls (collect_loop br re i p) |\<subseteq>| urls (collect_loop br re j p)) \<and>
   (i \<le> SCROLL_TIMES \<longrightarrow>
      urls (collect_loop br re i p) |\<subseteq>| urls (collect_image_urls br re p)) \<and>
   urls (collect_loop br re (Suc i) p) =
     urls (collect_loop br re i p) |\<union>|
     (case scanned br re p i of None \<Rightarrow> {||} | Some c \<Rightarrow> found re c) \<and>
   scan_img re cont (scan_ou re cont us) = us |\<union>| found re cont \<and>
   (found re cont |\<subseteq>| us \<longrightarrow> scan_img re cont (scan_ou re cont us) = us) \<and>
   scan_img re cont (scan_ou re cont (scan_img re cont (scan_ou re cont us))) =
     scan_img re cont (scan_ou re cont us) \<and>
   (u |\<in>| us \<longrightarrow> finsert u us = us) \<and>
   distinct (sorted_list_of_fset (urls (collect_image_urls br re p))) \<and>
   length (sorted_list_of_fset (urls (collect_image_urls br re p))) =
     fcard (urls (collect_image_urls br re p))"
proof (intro conjI impI)
  show "urls (collect_loop br re i p) |\<subseteq>| urls (collect_loop br re (Suc i) p)"
    by (rule urls_collect_loop_mono) simp
  show "urls (collect_loop br re i p) |\<subseteq>| urls (collect_loop br re j p)" if "i \<le> j"
    using that by (rule urls_collect_loop_mono)
  show "urls (collect_loop br re i p) |\<subseteq>| urls (collect_image_urls br re p)"
    if "i \<le> SCROLL_TIMES"
    unfolding collect_image_urls_def using that by (rule urls_collect_loop_mono)
  show "urls (collect_loop br re (Suc i) p) =
     urls (collect_loop br re i p) |\<union>|
     (case scanned br re p i of None \<Rightarrow> {||} | Some c \<Rightarrow> found re c)"
    by (rule urls_collect_loop_Suc)
  show "scan_img re cont (scan_ou re cont us) = us |\<union>| found re cont"
    by (rule scans_union)
  show "scan_img re cont (scan_ou re cont us) = us" if "found re cont |\<subseteq>| us"
    using that unfolding scans_union by auto
  show "scan_img re cont (scan_ou re cont (scan_img re cont (scan_ou re cont us))) =
     scan_img re cont (scan_ou re cont us)"
    unfolding scans_union by auto
  show "finsert u us = us" if "u |\<in>| us"
    using that by auto
  show "distinct (sorted_list_of_fset (urls (collect_image_urls br re p)))"
    by (rule distinct_sorted_list_of_fset)
  show "length (sorted_list_of_fset (urls (collect_image_urls br re p))) =
     fcard (urls (collect_image_urls br re p))"
    by (simp add: sorted_list_of_fset.rep_eq fcard.rep_eq)
qed

lemma found_one_match: "found one_match cont = {|lit ''http://example.org/a.bmp''|}"
  by (simp add: found_def scan_img_def scan_ou_def one_match_def)

lemma scanned_idle: "scanned idle_browser re () i = Some []"
proof -
  have "stopped (collect_loop idle_browser re i ()) = None"
    by (rule collect_loop_never_raises) (simp_all add: idle_browser_def)
  then show ?thesis by (simp add: scanned_def step_content_def idle_browser_def)
qed

theorem urls_grow_monotonically_witness:
  "(0::nat) \<le> 15 \<and>
   urls (collect_loop idle_browser one_match 0 ()) |\<subseteq>|
     urls (collect_loop idle_browser one_match 15 ()) \<and>
   (0::nat) \<le> SCROLL_TIMES \<and>
   urls (collect_loop idle_browser one_match 0 ()) |\<subseteq>|
     urls (collect_image_urls idle_browser one_match ()) \<and>
   urls (collect_loop idle_browser one_match 0 ()) = {||} \<and>
   scanned idle_browser one_match () 0 = Some [] \<and>
   urls (collect_loop idle_browser one_match (Suc 0) ()) = {|lit ''http://example.org/a.bmp''|} \<and>
   found one_match [] |\<subseteq>| {|lit ''http://example.org/a.bmp''|} \<and>
   scan_img one_match [] (scan_ou one_match [] {|lit ''http://example.org/a.bmp''|}) =
     {|lit ''http://example.org/a.bmp''|} \<and>
   lit ''http://example.org/a.bmp'' |\<in>| {|lit ''http://example.org/a.bmp''|} \<and>
   finsert (lit ''http://example.org/a.bmp'') {|lit ''http://example.org/a.bmp''|} =
     {|lit ''http://example.org/a.bmp''|}"
proof -
  let ?a = "lit ''http://example.org/a.bmp''"
  have f: "found one_match [] |\<subseteq>| {|?a|}" by (simp add: found_one_match)
  have s: "(0::nat) \<le> SCROLL_TIMES" by simp
  have l: "(0::nat) \<le> 15" by simp
  have m: "?a |\<in>| {|?a|}" by simp
  have z: "urls (collect_loop idle_browser one_match 0 ()) = {||}"
    by (simp add: collect_loop_0 collect_init_def)
  note t = urls_grow_monotonically
    [where br = idle_browser and re = one_match and i = 0 and p = "()" and j = 15
       and cont = "[]" and us = "{|?a|}" and u = "?a"]
  note 1 = t [THEN conjunct2, THEN conjunct1, rule_format, OF l]
  note 2 = t [THEN conjunct2, THEN conjunct2, THEN conjunct1, rule_format, OF s]
  have 3: "urls (collect_loop idle_browser one_match (Suc 0) ()) = {|?a|}"
    using t [THEN conjunct2, THEN conjunct2, THEN conjunct2, THEN conjunct1]
    by (simp add: z scanned_idle found_one_match)
  note 4 = t [THEN conjunct2, THEN conjunct2, THEN conjunct2, THEN conjunct2, THEN conjunct2,
    THEN conjunct1, rule_format, OF f]
  note 5 = t [THEN conjunct2, THEN conjunct2, THEN conjunct2, THEN conjunct2, THEN conjunct2,
    THEN conjunct2, THEN conjunct2, THEN conjunct1, rule_format, OF m]
  from l 1 s 2 z scanned_idle [of one_match 0] 3 f 4 m 5 show ?thesis by (intro conjI)
qed

end
